theory Spec2Isabelle
  imports Main
begin

section \<open>Data model\<close>

text \<open>
  A message of the channel (\<open>MessageInterface\<close>): the engine reads nothing of it but its
  content.
\<close>

datatype message = Message (content: string)

text \<open>
  Outbound content (\<open>Format\<close>).  The only field the engine itself writes is
  \<open>text\<close>; it is \<open>format_text\<close> here.
\<close>

datatype format = Format (format_text: string)

text \<open>
  What a callback can throw: a \<open>Rejection\<close> with its message (the empty string when it was
  constructed without one), or any other error.
\<close>

datatype thrown = Rejection string | Failure string

text \<open>
  Callbacks are asynchronous and may have effects.  Each one takes the state of the world
  \<open>'w\<close> it runs in and returns the state it leaves, together with its value or what it
  threw.
\<close>

type_synonym ('d, 'w) PhaseFunction = "message \<Rightarrow> 'd \<Rightarrow> 'w \<Rightarrow> (thrown + 'd) \<times> 'w"

type_synonym ('d, 'w) PhaseCondition = "'d \<Rightarrow> 'w \<Rightarrow> (thrown + bool) \<times> 'w"

type_synonym 'd FormatGenerator = "'d \<Rightarrow> format"

text \<open>
  A step of the conversation with its place in the tree: the fields of \<open>Phase\<close> and the
  \<open>children\<close> it inherits from \<open>TreeNode\<close>.  The field \<open>function\<close> of the source is
  \<open>phase_function\<close> here.  \<open>messages\<close> and \<open>children\<close> are the two fields the engine
  mutates; an operation that mutates an object returns the object as it is afterwards.
\<close>

datatype ('d, 'w) phase = Phase
  (formatGenerator: "'d FormatGenerator")
  (phase_function: "('d, 'w) PhaseFunction option")
  (condition: "('d, 'w) PhaseCondition option")
  (duration: int)
  (messages: "message list")
  (children: "('d, 'w) phase list")

section \<open>PromptRunner.valid\<close>

text \<open>
  The loop over the children returns false at the first child that lacks a condition
  while there are several children, or whose own subtree is not valid.
\<close>

fun valid :: "('d, 'w) phase \<Rightarrow> bool"
  and valid_loop :: "bool \<Rightarrow> ('d, 'w) phase list \<Rightarrow> bool" where
  "valid (Phase fg f c d ms cs) = valid_loop (length cs > 1) cs"
| "valid_loop multipleChildren [] = True"
| "valid_loop multipleChildren (child # rest) =
     (if multipleChildren \<and> condition child = None then False
      else if \<not> valid child then False
      else valid_loop multipleChildren rest)"

text \<open>The nodes reachable from a node: the node itself and the nodes below it.\<close>

fun reachable :: "('d, 'w) phase \<Rightarrow> ('d, 'w) phase list" where
  "reachable (Phase fg f c d ms cs) = Phase fg f c d ms cs # concat (map reachable cs)"

section \<open>Phase.getNext\<close>

text \<open>
  The loop over the children, in declared order: a child with no condition is returned
  without any call; otherwise the child's condition is awaited on the data, and the
  child is returned when it holds.  A condition that throws rejects the promise of
  \<open>getNext\<close>.  \<open>None\<close> is \<open>null\<close>.
\<close>

fun getNext_loop ::
  "('d, 'w) phase list \<Rightarrow> 'd \<Rightarrow> 'w \<Rightarrow> (thrown + ('d, 'w) phase option) \<times> 'w" where
  "getNext_loop [] data w = (Inr None, w)"
| "getNext_loop (child # rest) data w =
     (case condition child of
        None \<Rightarrow> (Inr (Some child), w)
      | Some cond \<Rightarrow>
          (case cond data w of
             (Inl err, w') \<Rightarrow> (Inl err, w')
           | (Inr holds, w') \<Rightarrow>
               if holds then (Inr (Some child), w') else getNext_loop rest data w'))"

definition getNext ::
  "('d, 'w) phase \<Rightarrow> 'd \<Rightarrow> 'w \<Rightarrow> (thrown + ('d, 'w) phase option) \<times> 'w" where
  "getNext this data w = getNext_loop (children this) data w"

text \<open>
  The vocabulary of the specification for the selection.  \<open>rejects cs data w\<close> is the
  world after every child of \<open>cs\<close> had its condition evaluated, in order, and each one
  returned false; it is \<open>None\<close> when some child of \<open>cs\<close> has no condition, or a condition
  that holds or throws.  \<open>admits c data w\<close> is the world after the child \<open>c\<close> was found
  eligible: the same world when it has no condition, the world its condition leaves
  when that returned true.
\<close>

fun rejects :: "('d, 'w) phase list \<Rightarrow> 'd \<Rightarrow> 'w \<Rightarrow> 'w option" where
  "rejects [] data w = Some w"
| "rejects (c # cs) data w =
     (case condition c of
        None \<Rightarrow> None
      | Some cond \<Rightarrow>
          (case cond data w of
             (Inr False, w') \<Rightarrow> rejects cs data w'
           | _ \<Rightarrow> None))"

definition admits :: "('d, 'w) phase \<Rightarrow> 'd \<Rightarrow> 'w \<Rightarrow> 'w option" where
  "admits c data w =
     (case condition c of
        None \<Rightarrow> Some w
      | Some cond \<Rightarrow> (case cond data w of (Inr True, w') \<Rightarrow> Some w' | _ \<Rightarrow> None))"

section \<open>PromptNode\<close>

text \<open>
  Modelled from the spec: the class \<open>Prompt\<close> that a \<open>PromptNode\<close> wraps is missing from
  the sources.  \<open>PromptNode\<close> reads one field of it, \<open>condition\<close>, which is the optional
  branch condition of the specification; it is \<open>prompt_condition\<close> here, and the
  field \<open>prompt\<close> of the node is \<open>node_prompt\<close>.
\<close>

datatype ('d, 'w) Prompt = Prompt (prompt_condition: "('d, 'w) PhaseCondition option")

text \<open>The children that \<open>PromptNode\<close> inherits from \<open>TreeNode\<close> are \<open>node_children\<close>.\<close>

datatype ('d, 'w) PromptNode = PromptNode
  (node_prompt: "('d, 'w) Prompt")
  (node_children: "('d, 'w) PromptNode list")

text \<open>
  \<open>PromptNode.hasValidChildren\<close>: true for at most one child; otherwise the loop returns
  false at the first child whose prompt has no condition.
\<close>

fun hasValidChildren_loop :: "('d, 'w) PromptNode list \<Rightarrow> bool" where
  "hasValidChildren_loop [] = True"
| "hasValidChildren_loop (child # rest) =
     (if prompt_condition (node_prompt child) = None then False else hasValidChildren_loop rest)"

definition hasValidChildren :: "('d, 'w) PromptNode \<Rightarrow> bool" where
  "hasValidChildren this =
     (if length (node_children this) \<le> 1 then True
      else hasValidChildren_loop (node_children this))"

text \<open>\<open>PromptNode.getNext\<close>: the loop of \<open>Phase.getNext\<close>, on the condition of the prompt.\<close>

fun PromptNode_getNext_loop ::
  "('d, 'w) PromptNode list \<Rightarrow> 'd \<Rightarrow> 'w \<Rightarrow> (thrown + ('d, 'w) PromptNode option) \<times> 'w" where
  "PromptNode_getNext_loop [] data w = (Inr None, w)"
| "PromptNode_getNext_loop (child # rest) data w =
     (let childPrompt = node_prompt child in
      case prompt_condition childPrompt of
        None \<Rightarrow> (Inr (Some child), w)
      | Some cond \<Rightarrow>
          (case cond data w of
             (Inl err, w') \<Rightarrow> (Inl err, w')
           | (Inr holds, w') \<Rightarrow>
               if holds then (Inr (Some child), w') else PromptNode_getNext_loop rest data w'))"

definition PromptNode_getNext ::
  "('d, 'w) PromptNode \<Rightarrow> 'd \<Rightarrow> 'w \<Rightarrow> (thrown + ('d, 'w) PromptNode option) \<times> 'w" where
  "PromptNode_getNext this data w = PromptNode_getNext_loop (node_children this) data w"

text \<open>
  The two designs hold the same tree: a step that carries its condition and its
  children is the node that wraps a prompt with this condition, over the same children.
\<close>

fun as_PromptNode :: "('d, 'w) phase \<Rightarrow> ('d, 'w) PromptNode" where
  "as_PromptNode (Phase fg f c d ms cs) = PromptNode (Prompt c) (map as_PromptNode cs)"

section \<open>The messages and children of a phase\<close>

fun storeMessage :: "message \<Rightarrow> ('d, 'w) phase \<Rightarrow> ('d, 'w) phase" where
  "storeMessage m (Phase fg f c d ms cs) = Phase fg f c d (ms @ [m]) cs"

fun setChildren :: "('d, 'w) phase list \<Rightarrow> ('d, 'w) phase \<Rightarrow> ('d, 'w) phase" where
  "setChildren nodes (Phase fg f c d ms cs) = Phase fg f c d ms nodes"

definition shouldRunCollector :: "('d, 'w) phase \<Rightarrow> bool" where
  "shouldRunCollector this = True"

definition STRINGS_exit :: string where
  "STRINGS_exit = ''Menu has been closed.''"

definition STRINGS_inactivity :: string where
  "STRINGS_inactivity = ''Menu has been closed due to inactivity.''"

definition STRINGS_rejected :: string where
  "STRINGS_rejected = ''That is not a valid input. Try again.''"

text \<open>
  A channel is its \<open>send\<close>: it takes the content, and returns the message sent or the
  error the promise rejects with.
\<close>

type_synonym 'w channel = "format \<Rightarrow> 'w \<Rightarrow> (thrown + message) \<times> 'w"

definition sendMessage ::
  "'w channel \<Rightarrow> ('d, 'w) phase \<Rightarrow> 'd \<Rightarrow> 'w \<Rightarrow> (thrown + message \<times> ('d, 'w) phase) \<times> 'w" where
  "sendMessage channel this data w =
     (case channel (formatGenerator this data) w of
        (Inl err, w') \<Rightarrow> (Inl err, w')
      | (Inr sent, w') \<Rightarrow> (Inr (sent, storeMessage sent this), w'))"

text \<open>
  \<open>terminateHere\<close> clears the children before it sends, so they are cleared also when
  the send fails.
\<close>

definition terminateHere ::
  "'w channel \<Rightarrow> string \<Rightarrow> ('d, 'w) phase \<Rightarrow> 'w \<Rightarrow> (thrown + message) \<times> ('d, 'w) phase \<times> 'w" where
  "terminateHere channel terminateString this w =
     (let this1 = setChildren [] this in
      case channel (Format terminateString) w of
        (Inl err, w') \<Rightarrow> (Inl err, this1, w')
      | (Inr sent, w') \<Rightarrow> (Inr sent, storeMessage sent this1, w'))"

section \<open>The collection phase\<close>

text \<open>
  \<open>Phase.collect\<close> returns a promise and registers listeners on the collector; the
  listeners, the timer callback and the message handler of \<open>handleCollector\<close> run
  later, one event at a time.  The state they share is made explicit here: the phase
  object, the promise, the pending timeout (with its delay), the calls made to
  \<open>setTimeout\<close> and \<open>clearTimeout\<close>, the events emitted on the collector, and the
  world.  Each handler runs to completion, the promises it awaits included, before the
  next event is taken.
\<close>

record 'd PhaseReturnData =
  ret_message :: "message option"
  ret_data :: 'd

datatype 'd promise = Pending | Resolved "'d PhaseReturnData" | Rejected thrown

datatype timer_call = SetTimeout int | ClearTimeout

datatype 'd emitted_event =
    EmitReject message thrown
  | EmitAccept message 'd
  | EmitExit message
  | EmitInactivity
  | EmitError message thrown
  | EmitStop

record ('d, 'w) collecting =
  node :: "('d, 'w) phase"
  promise :: "'d promise"
  timer :: "int option"
  timer_calls :: "timer_call list"
  emitted :: "'d emitted_event list"
  world :: 'w

text \<open>A promise settles once: \<open>resolve\<close> and \<open>reject\<close> on a settled promise do nothing.\<close>

definition resolve :: "'d PhaseReturnData \<Rightarrow> 'd promise \<Rightarrow> 'd promise" where
  "resolve v p = (case p of Pending \<Rightarrow> Resolved v | _ \<Rightarrow> p)"

definition reject :: "thrown \<Rightarrow> 'd promise \<Rightarrow> 'd promise" where
  "reject err p = (case p of Pending \<Rightarrow> Rejected err | _ \<Rightarrow> p)"

subsection \<open>The listeners of Phase.collect\<close>

definition terminate ::
  "'w channel \<Rightarrow> 'd \<Rightarrow> string \<Rightarrow> ('d, 'w) collecting \<Rightarrow> ('d, 'w) collecting" where
  "terminate channel data terminateString s =
     (case terminateHere channel terminateString (node s) (world s) of
        (Inl err, this', w') \<Rightarrow>
          s\<lparr>node := this', world := w', promise := reject err (promise s)\<rparr>
      | (Inr sent, this', w') \<Rightarrow>
          s\<lparr>node := this', world := w',
            promise := resolve \<lparr>ret_message = Some sent, ret_data = data\<rparr> (promise s)\<rparr>)"

definition on_error :: "message \<Rightarrow> thrown \<Rightarrow> ('d, 'w) collecting \<Rightarrow> ('d, 'w) collecting" where
  "on_error lastUserInput err s =
     s\<lparr>node := storeMessage lastUserInput (node s), promise := reject err (promise s)\<rparr>"

definition on_inactivity ::
  "'w channel \<Rightarrow> 'd \<Rightarrow> ('d, 'w) collecting \<Rightarrow> ('d, 'w) collecting" where
  "on_inactivity channel data s = terminate channel data STRINGS_inactivity s"

definition on_exit ::
  "'w channel \<Rightarrow> 'd \<Rightarrow> message \<Rightarrow> ('d, 'w) collecting \<Rightarrow> ('d, 'w) collecting" where
  "on_exit channel data exitMessage s =
     terminate channel data STRINGS_exit (s\<lparr>node := storeMessage exitMessage (node s)\<rparr>)"

definition on_accept :: "message \<Rightarrow> 'd \<Rightarrow> ('d, 'w) collecting \<Rightarrow> ('d, 'w) collecting" where
  "on_accept acceptMessage acceptData s =
     s\<lparr>node := storeMessage acceptMessage (node s),
       promise := resolve \<lparr>ret_message = Some acceptMessage, ret_data = acceptData\<rparr> (promise s)\<rparr>"

text \<open>
  \<open>err.message || Phase.STRINGS.rejected\<close>: the empty message is falsy.  An error that
  is not a \<open>Rejection\<close> never reaches this listener; its message is not modelled.
\<close>

fun invalidFeedback :: "thrown \<Rightarrow> string" where
  "invalidFeedback (Rejection msg) = (if msg = [] then STRINGS_rejected else msg)"
| "invalidFeedback (Failure x) = STRINGS_rejected"

definition on_reject ::
  "'w channel \<Rightarrow> message \<Rightarrow> thrown \<Rightarrow> ('d, 'w) collecting \<Rightarrow> ('d, 'w) collecting" where
  "on_reject channel userInput err s =
     (let this1 = storeMessage userInput (node s) in
      case channel (Format (invalidFeedback err)) (world s) of
        (Inr m, w') \<Rightarrow> s\<lparr>node := storeMessage m this1, world := w'\<rparr>
      | (Inl sendErr, w') \<Rightarrow> s\<lparr>node := this1, world := w', promise := reject sendErr (promise s)\<rparr>)"

text \<open>
  \<open>emitter.emit\<close>: the event is recorded and the listener that \<open>collect\<close> registered
  for it runs.  \<open>collect\<close> registers none for \<open>stop\<close>, which is for the collector.
\<close>

definition emit ::
  "'w channel \<Rightarrow> 'd \<Rightarrow> 'd emitted_event \<Rightarrow> ('d, 'w) collecting \<Rightarrow> ('d, 'w) collecting" where
  "emit channel data ev s =
     (let s1 = s\<lparr>emitted := emitted s @ [ev]\<rparr> in
      case ev of
        EmitReject userInput err \<Rightarrow> on_reject channel userInput err s1
      | EmitAccept acceptMessage acceptData \<Rightarrow> on_accept acceptMessage acceptData s1
      | EmitExit exitMessage \<Rightarrow> on_exit channel data exitMessage s1
      | EmitInactivity \<Rightarrow> on_inactivity channel data s1
      | EmitError lastUserInput err \<Rightarrow> on_error lastUserInput err s1
      | EmitStop \<Rightarrow> s1)"

subsection \<open>Phase.handleMessage and Phase.handleCollector\<close>

definition handleMessage ::
  "'w channel \<Rightarrow> message \<Rightarrow> ('d, 'w) PhaseFunction \<Rightarrow> 'd \<Rightarrow> ('d, 'w) collecting
     \<Rightarrow> bool \<times> ('d, 'w) collecting" where
  "handleMessage channel m func data s =
     (if content m = ''exit'' then (True, emit channel data (EmitExit m) s)
      else
        (case func m data (world s) of
           (Inr newData, w') \<Rightarrow> (True, emit channel data (EmitAccept m newData) (s\<lparr>world := w'\<rparr>))
         | (Inl err, w') \<Rightarrow>
             (case err of
                Rejection msg \<Rightarrow> (False, emit channel data (EmitReject m err) (s\<lparr>world := w'\<rparr>))
              | Failure x \<Rightarrow> (True, emit channel data (EmitError m err) (s\<lparr>world := w'\<rparr>)))))"

text \<open>\<open>clearTimeout(timer)\<close>; on a timer that was never set it is a call with no effect.\<close>

definition clearTimeout :: "('d, 'w) collecting \<Rightarrow> ('d, 'w) collecting" where
  "clearTimeout s = s\<lparr>timer := None, timer_calls := timer_calls s @ [ClearTimeout]\<rparr>"

text \<open>The listener for \<open>message\<close> that \<open>handleCollector\<close> registers.\<close>

definition on_message ::
  "'w channel \<Rightarrow> ('d, 'w) PhaseFunction \<Rightarrow> 'd \<Rightarrow> message \<Rightarrow> ('d, 'w) collecting
     \<Rightarrow> ('d, 'w) collecting" where
  "on_message channel func data thisMessage s =
     (case handleMessage channel thisMessage func data s of
        (stopCollecting, s') \<Rightarrow>
          if stopCollecting then clearTimeout (emit channel data EmitStop s') else s')"

text \<open>The callback given to \<open>setTimeout\<close>; once it runs the timeout is no longer pending.\<close>

definition on_timeout ::
  "'w channel \<Rightarrow> 'd \<Rightarrow> ('d, 'w) collecting \<Rightarrow> ('d, 'w) collecting" where
  "on_timeout channel data s =
     emit channel data EmitInactivity (emit channel data EmitStop (s\<lparr>timer := None\<rparr>))"

text \<open>
  \<open>handleCollector\<close>: \<open>if (duration)\<close> holds for every number but zero (and NaN, which
  \<open>int\<close> does not have).
\<close>

definition handleCollector :: "int \<Rightarrow> ('d, 'w) collecting \<Rightarrow> ('d, 'w) collecting" where
  "handleCollector dur s =
     (if dur \<noteq> 0
      then s\<lparr>timer := Some dur, timer_calls := timer_calls s @ [SetTimeout dur]\<rparr>
      else s)"

subsection \<open>Events\<close>

text \<open>
  What happens to a phase while it collects: the collector delivers a message, or the
  delay of the pending timeout elapses.  A collector that was told to stop delivers no
  further message, and a timeout that is not pending (never set, cleared, or already
  run) cannot elapse.
\<close>

datatype event = MessageEvent message | TimeoutEvent

definition stopped :: "('d, 'w) collecting \<Rightarrow> bool" where
  "stopped s = (\<exists>ev \<in> set (emitted s). case ev of EmitStop \<Rightarrow> True | _ \<Rightarrow> False)"

definition deliver ::
  "'w channel \<Rightarrow> ('d, 'w) PhaseFunction \<Rightarrow> 'd \<Rightarrow> ('d, 'w) collecting \<Rightarrow> event
     \<Rightarrow> ('d, 'w) collecting" where
  "deliver channel func data s ev =
     (case ev of
        MessageEvent m \<Rightarrow> if stopped s then s else on_message channel func data m s
      | TimeoutEvent \<Rightarrow> if timer s = None then s else on_timeout channel data s)"

definition collect_events ::
  "'w channel \<Rightarrow> ('d, 'w) PhaseFunction \<Rightarrow> 'd \<Rightarrow> ('d, 'w) collecting \<Rightarrow> event list
     \<Rightarrow> ('d, 'w) collecting" where
  "collect_events channel func data s evs = foldl (deliver channel func data) s evs"

subsection \<open>Phase.collect\<close>

text \<open>
  \<open>createCollector\<close> is abstract in \<open>Phase\<close>.  A collector is taken to be the events the
  phase will see, in the order they happen; creating one is an effect on the world.
  \<open>collect\<close> gives the state in which the events of the collector have all happened:
  its promise is \<open>Pending\<close> when they did not settle it.
\<close>

type_synonym 'w createCollector = "message option \<Rightarrow> 'w \<Rightarrow> event list \<times> 'w"

definition collect_begin :: "('d, 'w) phase \<Rightarrow> 'w \<Rightarrow> ('d, 'w) collecting" where
  "collect_begin this w =
     \<lparr>node = this, promise = Pending, timer = None, timer_calls = [], emitted = [], world = w\<rparr>"

definition collect ::
  "'w channel \<Rightarrow> 'w createCollector \<Rightarrow> ('d, 'w) phase \<Rightarrow> 'd \<Rightarrow> message option \<Rightarrow> 'w
     \<Rightarrow> ('d, 'w) collecting" where
  "collect channel createCollector this data triggerMessage w =
     (case phase_function this of
        None \<Rightarrow>
          (collect_begin this w)\<lparr>promise := Resolved \<lparr>ret_message = None, ret_data = data\<rparr>\<rparr>
      | Some func \<Rightarrow>
          (case createCollector triggerMessage w of
             (collector, w1) \<Rightarrow>
               collect_events channel func data
                 (handleCollector (duration this) (collect_begin this w1)) collector))"

section \<open>PromptRunner\<close>

text \<open>
  The runner is written against the class \<open>Prompt\<close>, which is missing from the sources,
  and drives it through its \<open>children\<close>, its \<open>condition\<close> and four methods:
  \<open>sendUserFormatMessage\<close>, \<open>shouldRunCollector\<close>, \<open>collect\<close> and \<open>getNext\<close>.
  \<open>Phase\<close> is the step class that the sources have, and it stands for \<open>Prompt\<close>:
  \<open>sendMessage\<close> is the first of the methods, and the data that the runner takes from
  \<open>collect\<close> is the \<open>data\<close> of the value that \<open>Phase.collect\<close> resolves with.

  The trace \<open>ran\<close> holds references to the nodes of the tree.  A node of the trace is
  the node as the tree has it, before the run stores messages in it.

  The promise of \<open>execute\<close> resolves (\<open>Completed\<close>), rejects with what was thrown
  (\<open>Thrown\<close>), or stays pending (\<open>Awaiting\<close>) when the events of a collector do not
  settle its phase.
\<close>

record ('d, 'w) PromptRunner =
  initialData :: 'd
  ran :: "('d, 'w) phase list"

datatype outcome = Completed | Thrown thrown | Awaiting

subsection \<open>The children of the current node during its collection phase\<close>

text \<open>
  A collection phase leaves the children of its node as they were, or empty; so the
  node that \<open>getNext\<close> then returns is a child of the node the phase began with, and the
  loop of \<open>execute\<close> descends in the tree.
\<close>

definition kept :: "('d, 'w) phase list \<Rightarrow> ('d, 'w) collecting \<Rightarrow> bool" where
  "kept cs s = (children (node s) = cs \<or> children (node s) = [])"

lemma children_storeMessage [simp]: "children (storeMessage m p) = children p"
  by (cases p) simp

lemma children_setChildren [simp]: "children (setChildren ns p) = ns"
  by (cases p) simp

lemma kept_terminate: "kept cs (terminate ch d str s)"
  by (auto simp: kept_def terminate_def terminateHere_def Let_def split: prod.splits sum.splits)

lemma kept_emit: "kept cs s \<Longrightarrow> kept cs (emit ch d ev s)"
  by (cases ev)
     (auto simp: emit_def Let_def on_reject_def on_accept_def on_exit_def on_inactivity_def
        on_error_def kept_terminate split: prod.splits sum.splits, auto simp: kept_def)

lemma kept_world: "kept cs (s\<lparr>world := w\<rparr>) = kept cs s"
  and kept_timer: "kept cs (s\<lparr>timer := t\<rparr>) = kept cs s"
  and kept_clearTimeout: "kept cs (clearTimeout s) = kept cs s"
  by (simp_all add: kept_def clearTimeout_def)

lemma kept_on_message: "kept cs s \<Longrightarrow> kept cs (on_message ch f d m s)"
  by (auto simp: on_message_def handleMessage_def kept_clearTimeout kept_world
      intro!: kept_emit split: prod.splits sum.splits thrown.splits)

lemma kept_on_timeout: "kept cs s \<Longrightarrow> kept cs (on_timeout ch d s)"
  by (simp add: on_timeout_def kept_emit kept_timer)

lemma kept_deliver: "kept cs s \<Longrightarrow> kept cs (deliver ch f d s ev)"
  by (cases ev) (simp_all add: deliver_def kept_on_message kept_on_timeout)

lemma kept_collect_events: "kept cs s \<Longrightarrow> kept cs (collect_events ch f d s evs)"
  unfolding collect_events_def
  by (induction evs arbitrary: s) (simp_all add: kept_deliver)

lemma kept_collect: "kept (children p) (collect ch cc p d tm w)"
proof (cases "phase_function p")
  case None
  then show ?thesis by (simp add: collect_def collect_begin_def kept_def)
next
  case (Some f)
  have "kept (children p) (handleCollector (duration p) (collect_begin p w1))" for w1
    by (simp add: handleCollector_def collect_begin_def kept_def)
  then show ?thesis
    by (simp add: collect_def Some kept_collect_events split: prod.splits)
qed

lemma getNext_loop_member:
  "getNext_loop cs d w = (Inr (Some c), w') \<Longrightarrow> c \<in> set cs"
  by (induction cs arbitrary: w) (auto split: option.splits prod.splits sum.splits if_splits)

lemma getNext_smaller:
  assumes "getNext (node (collect ch cc p d tm w)) d' w1 = (Inr (Some c), w')"
  shows "size_list size (children c) < size_list size (children p)"
proof -
  have "c \<in> set (children (node (collect ch cc p d tm w)))"
    using assms by (simp add: getNext_def getNext_loop_member)
  moreover have "kept (children p) (collect ch cc p d tm w)" by (rule kept_collect)
  ultimately have "c \<in> set (children p)" by (auto simp: kept_def)
  then have "size c < Suc (size_list size (children p))"
    by (simp add: less_Suc_eq_le size_list_estimation')
  moreover have "size_list size (children c) < size c" by (cases c) simp
  ultimately show ?thesis by simp
qed

subsection \<open>PromptRunner.execute and PromptRunner.run\<close>

text \<open>
  The body of the while loop of \<open>execute\<close>, for a current node that is not null.  The
  loop ends when \<open>getNext\<close> returns null; a rejected promise that is awaited ends
  \<open>execute\<close> with what it was rejected with.
\<close>

function execute_loop ::
  "'w channel \<Rightarrow> 'w createCollector \<Rightarrow> ('d, 'w) PromptRunner \<Rightarrow> ('d, 'w) phase \<Rightarrow> 'd \<Rightarrow> 'w
     \<Rightarrow> outcome \<times> ('d, 'w) PromptRunner \<times> 'w" where
  "execute_loop channel createCollector runner thisPrompt thisData w =
     (if shouldRunCollector thisPrompt then
        (let s = collect channel createCollector thisPrompt thisData None w in
         case promise s of
           Pending \<Rightarrow> (Awaiting, runner, world s)
         | Rejected err \<Rightarrow> (Thrown err, runner, world s)
         | Resolved r \<Rightarrow>
             (let promptData = ret_data r in
              case getNext (node s) promptData (world s) of
                (Inl err, w1) \<Rightarrow> (Thrown err, runner, w1)
              | (Inr None, w1) \<Rightarrow> (Completed, runner, w1)
              | (Inr (Some next), w1) \<Rightarrow>
                  (case sendMessage channel next promptData w1 of
                     (Inl err, w2) \<Rightarrow> (Thrown err, runner, w2)
                   | (Inr (sent, next'), w2) \<Rightarrow>
                       execute_loop channel createCollector
                         (runner\<lparr>ran := ran runner @ [next]\<rparr>) next' promptData w2)))
      else (Completed, runner, w))"
  by pat_completeness auto
termination
proof (relation "measure (\<lambda>(channel, createCollector, runner, thisPrompt, thisData, w).
          size_list size (children thisPrompt))", goal_cases)
  case 1
  show ?case by simp
next
  case (2 channel createCollector runner thisPrompt thisData w s r promptData res w1 nxt nopt res2 w2 pr sent next')
  then show ?case
    by (auto simp: sendMessage_def split: prod.splits sum.splits)
       (metis getNext_smaller)
qed

declare execute_loop.simps [simp del]

definition execute ::
  "'w channel \<Rightarrow> 'w createCollector \<Rightarrow> ('d, 'w) PromptRunner \<Rightarrow> ('d, 'w) phase \<Rightarrow> 'w
     \<Rightarrow> outcome \<times> ('d, 'w) PromptRunner \<times> 'w" where
  "execute channel createCollector runner initialPrompt w =
     (let runner1 = runner\<lparr>ran := ran runner @ [initialPrompt]\<rparr>;
          thisData = initialData runner in
      case sendMessage channel initialPrompt thisData w of
        (Inl err, w1) \<Rightarrow> (Thrown err, runner1, w1)
      | (Inr (sent, thisPrompt), w1) \<Rightarrow>
          execute_loop channel createCollector runner1 thisPrompt thisData w1)"

definition invalid_prompt :: thrown where
  "invalid_prompt = Failure ''Invalid prompt found. Prompts with more than 1 child must have all its children to have a condition function specified.''"

definition run ::
  "'w channel \<Rightarrow> 'w createCollector \<Rightarrow> ('d, 'w) PromptRunner \<Rightarrow> ('d, 'w) phase \<Rightarrow> 'w
     \<Rightarrow> outcome \<times> ('d, 'w) PromptRunner \<times> 'w" where
  "run channel createCollector runner prompt w =
     (if \<not> valid prompt then (Thrown invalid_prompt, runner, w)
      else execute channel createCollector runner prompt w)"

section \<open>The states of a collection phase\<close>

text \<open>
  The specification names the states of a phase.  A phase is in the state of the first
  terminal event that was emitted on its collector, and is collecting while there is
  none; \<open>reject\<close> and \<open>stop\<close> are not terminal.
\<close>

datatype status = COLLECTING | ACCEPTED | EXITED | INACTIVE | FAILED

fun status_of :: "'d emitted_event list \<Rightarrow> status" where
  "status_of [] = COLLECTING"
| "status_of (EmitAccept m d # evs) = ACCEPTED"
| "status_of (EmitExit m # evs) = EXITED"
| "status_of (EmitInactivity # evs) = INACTIVE"
| "status_of (EmitError m err # evs) = FAILED"
| "status_of (EmitReject m err # evs) = status_of evs"
| "status_of (EmitStop # evs) = status_of evs"

definition phase_status :: "('d, 'w) collecting \<Rightarrow> status" where
  "phase_status s = status_of (emitted s)"

text \<open>The calls that arm a timer, among the calls made to the timer functions.\<close>

definition armings :: "timer_call list \<Rightarrow> timer_call list" where
  "armings calls = filter (\<lambda>c. case c of SetTimeout d \<Rightarrow> True | ClearTimeout \<Rightarrow> False) calls"

text \<open>
  A phase with no timer: no timeout is pending, no inactivity was emitted, and its
  promise is pending only while it collects and resolved only by an acceptance or an
  exit.
\<close>

definition untimed :: "('d, 'w) collecting \<Rightarrow> bool" where
  "untimed s =
     (timer s = None \<and> EmitInactivity \<notin> set (emitted s)
      \<and> (promise s = Pending \<longrightarrow> phase_status s = COLLECTING)
      \<and> (\<not> stopped s \<longrightarrow> phase_status s = COLLECTING)
      \<and> (\<forall>r. promise s = Resolved r \<longrightarrow> phase_status s = ACCEPTED \<or> phase_status s = EXITED))"

section \<open>Example inputs\<close>

text \<open>
  A world that is a log: the channel appends the text it sends, a collector that is
  created appends \<open>createCollector\<close>, a condition appends its name and the function of a
  step appends \<open>function\<close>.  The function rejects the reply \<open>no\<close>, fails on the reply
  \<open>boom\<close> and accepts any other reply as the new data.
\<close>

definition logging_channel :: "string list channel" where
  "logging_channel fmt w = (Inr (Message (format_text fmt)), w @ [format_text fmt])"

definition scripted :: "event list \<Rightarrow> string list createCollector" where
  "scripted evs triggerMessage w = (evs, w @ [''createCollector''])"

definition named_condition :: "string \<Rightarrow> bool \<Rightarrow> (string, string list) PhaseCondition" where
  "named_condition name holds data w = (Inr holds, w @ [name])"

definition reply_function :: "(string, string list) PhaseFunction" where
  "reply_function m data w =
     (if content m = ''boom'' then (Inl (Failure ''boom''), w @ [''function''])
      else if content m = ''no'' then (Inl (Rejection []), w @ [''function''])
      else (Inr (content m), w @ [''function'']))"

definition step ::
  "string \<Rightarrow> (string, string list) PhaseFunction option
     \<Rightarrow> (string, string list) PhaseCondition option \<Rightarrow> int
     \<Rightarrow> (string, string list) phase list \<Rightarrow> (string, string list) phase" where
  "step name f c dur cs = Phase (\<lambda>data. Format name) f c dur [] cs"

text \<open>
  Two trees of the tests of \<open>valid\<close>: a node with two children that have conditions, and
  one with two children that have none, each below a single child of the root.
\<close>

definition tree_valid :: "(string, string list) phase" where
  "tree_valid =
     step ''R'' (Some reply_function) None 60000
       [step ''R1'' (Some reply_function) None 60000
          [step ''R11'' (Some reply_function) (Some (named_condition ''R11'' False)) 60000 [],
           step ''R12'' (Some reply_function) (Some (named_condition ''R12'' True)) 60000
             [step ''R121'' None (Some (named_condition ''R121'' True)) 60000 [],
              step ''R122'' None (Some (named_condition ''R122'' True)) 60000 []]]]"

definition tree_invalid :: "(string, string list) phase" where
  "tree_invalid =
     step ''R'' (Some reply_function) None 60000
       [step ''R1'' (Some reply_function) None 60000
          [step ''R11'' (Some reply_function) None 60000 [],
           step ''R12'' (Some reply_function) None 60000 []]]"

text \<open>Three children: the condition of the first is false, those of the others true.\<close>

definition child_A :: "(string, string list) phase" where
  "child_A = step ''A'' None (Some (named_condition ''A'' False)) 60000 []"

definition child_B :: "(string, string list) phase" where
  "child_B = step ''B'' None (Some (named_condition ''B'' True)) 60000 []"

definition child_C :: "(string, string list) phase" where
  "child_C = step ''C'' None (Some (named_condition ''C'' True)) 60000 []"

text \<open>
  A step that collects with the default duration, the state in which its phase begins,
  the same step with the duration zero, a step with no function over the three
  children, and a runner.
\<close>

definition phase0 :: "(string, string list) phase" where
  "phase0 = step ''ask'' (Some reply_function) None 60000 []"

definition collecting0 :: "(string, string list) collecting" where
  "collecting0 = handleCollector (duration phase0) (collect_begin phase0 [])"

definition phase_untimed :: "(string, string list) phase" where
  "phase_untimed = step ''ask'' (Some reply_function) None 0 []"

definition display_only :: "(string, string list) phase" where
  "display_only = step ''P'' None None 60000 [child_A, child_B, child_C]"

definition runner0 :: "(string, string list) PromptRunner" where
  "runner0 = \<lparr>initialData = ''data'', ran = []\<rparr>"

section \<open>Lemmas on the steps of a phase\<close>

lemma status_of_append:
  "status_of (xs @ ys) = (if status_of xs = COLLECTING then status_of ys else status_of xs)"
  by (induction xs rule: status_of.induct) simp_all

lemma status_INACTIVE: "status_of xs = INACTIVE \<Longrightarrow> EmitInactivity \<in> set xs"
  by (induction xs rule: status_of.induct) simp_all

lemmas listener_defs = emit_def on_reject_def on_accept_def on_exit_def on_inactivity_def
  on_error_def terminate_def terminateHere_def clearTimeout_def resolve_def reject_def

lemma emit_fields:
  "emitted (emit ch d ev s) = emitted s @ [ev]"
  "timer (emit ch d ev s) = timer s"
  "timer_calls (emit ch d ev s) = timer_calls s"
  by (cases ev; simp add: listener_defs Let_def split: prod.splits sum.splits)+

lemma stopped_emitted: "stopped s = (EmitStop \<in> set (emitted s))"
proof -
  have "(case ev of EmitStop \<Rightarrow> True | _ \<Rightarrow> False) = (ev = EmitStop)" for ev :: "'a emitted_event"
    by (cases ev) simp_all
  then show ?thesis by (auto simp: stopped_def)
qed

lemma phase_function_storeMessage [simp]:
  "phase_function (storeMessage m p) = phase_function p"
  by (cases p) simp

lemma messages_storeMessage [simp]: "messages (storeMessage m p) = messages p @ [m]"
  by (cases p) simp

lemma messages_setChildren [simp]: "messages (setChildren ns p) = messages p"
  by (cases p) simp

lemma settled_fixed:
  "stopped s \<Longrightarrow> timer s = None \<Longrightarrow> collect_events ch f d s evs = s"
  unfolding collect_events_def
  by (induction evs) (simp_all add: deliver_def split: event.splits)

lemma collect_events_append:
  "collect_events ch f d s (xs @ ys) = collect_events ch f d (collect_events ch f d s xs) ys"
  by (simp add: collect_events_def)

lemma collect_events_Cons:
  "collect_events ch f d s (x # xs) = collect_events ch f d (deliver ch f d s x) xs"
  by (simp add: collect_events_def)

lemma collect_events_Nil: "collect_events ch f d s [] = s"
  by (simp add: collect_events_def)

lemma collect_ends:
  assumes "phase_function p = Some func"
    and "createCollector tm w = (before @ ev # after, w0)"
    and "s = collect_events channel func data (handleCollector (duration p) (collect_begin p w0)) before"
    and "stopped (deliver channel func data s ev)"
    and "timer (deliver channel func data s ev) = None"
  shows "collect channel createCollector p data tm w = deliver channel func data s ev"
  using assms
  by (simp add: collect_def collect_events_append collect_events_Cons settled_fixed)

text \<open>What each event does to a phase that is collecting.\<close>

lemma exit_step:
  assumes "content m = ''exit''" and "\<not> stopped s"
  shows "deliver channel func data s (MessageEvent m) =
         clearTimeout (emit channel data EmitStop (emit channel data (EmitExit m) s))"
  using assms by (simp add: deliver_def on_message_def handleMessage_def)

lemma accept_step:
  assumes "content m \<noteq> ''exit''" and "\<not> stopped s"
    and "func m data (world s) = (Inr newData, w1)"
  shows "deliver channel func data s (MessageEvent m) =
         clearTimeout (emit channel data EmitStop (emit channel data (EmitAccept m newData) (s\<lparr>world := w1\<rparr>)))"
  using assms by (simp add: deliver_def on_message_def handleMessage_def)

lemma reject_step:
  assumes "content m \<noteq> ''exit''" and "\<not> stopped s"
    and "func m data (world s) = (Inl (Rejection msg), w1)"
  shows "deliver channel func data s (MessageEvent m) =
         emit channel data (EmitReject m (Rejection msg)) (s\<lparr>world := w1\<rparr>)"
  using assms by (simp add: deliver_def on_message_def handleMessage_def)

lemma error_step:
  assumes "content m \<noteq> ''exit''" and "\<not> stopped s"
    and "func m data (world s) = (Inl (Failure x), w1)"
  shows "deliver channel func data s (MessageEvent m) =
         clearTimeout (emit channel data EmitStop (emit channel data (EmitError m (Failure x)) (s\<lparr>world := w1\<rparr>)))"
  using assms by (simp add: deliver_def on_message_def handleMessage_def)


text \<open>The same, with the listeners of \<open>collect\<close> unfolded.\<close>

lemma exit_state:
  assumes "content m = ''exit''" and "\<not> stopped s"
    and "channel (Format STRINGS_exit) (world s) = (res, w1)"
  shows "deliver channel func data s (MessageEvent m) =
     s\<lparr>node := (case res of
                   Inl err \<Rightarrow> setChildren [] (storeMessage m (node s))
                 | Inr sent \<Rightarrow> storeMessage sent (setChildren [] (storeMessage m (node s)))),
       promise := (case res of
                   Inl err \<Rightarrow> reject err (promise s)
                 | Inr sent \<Rightarrow> resolve \<lparr>ret_message = Some sent, ret_data = data\<rparr> (promise s)),
       timer := None,
       timer_calls := timer_calls s @ [ClearTimeout],
       emitted := emitted s @ [EmitExit m, EmitStop],
       world := w1\<rparr>"
  using assms
  by (cases res)
     (simp_all add: exit_step emit_def on_exit_def terminate_def terminateHere_def
       clearTimeout_def Let_def)


lemma error_state:
  assumes "content m \<noteq> ''exit''" and "\<not> stopped s"
    and "func m data (world s) = (Inl (Failure x), w1)"
  shows "deliver channel func data s (MessageEvent m) =
     s\<lparr>node := storeMessage m (node s),
       promise := reject (Failure x) (promise s),
       timer := None,
       timer_calls := timer_calls s @ [ClearTimeout],
       emitted := emitted s @ [EmitError m (Failure x), EmitStop],
       world := w1\<rparr>"
  using assms
  by (simp add: error_step emit_def on_error_def clearTimeout_def Let_def)

lemma accept_state:
  assumes "content m \<noteq> ''exit''" and "\<not> stopped s"
    and "func m data (world s) = (Inr newData, w1)"
  shows "deliver channel func data s (MessageEvent m) =
     s\<lparr>node := storeMessage m (node s),
       promise := resolve \<lparr>ret_message = Some m, ret_data = newData\<rparr> (promise s),
       timer := None,
       timer_calls := timer_calls s @ [ClearTimeout],
       emitted := emitted s @ [EmitAccept m newData, EmitStop],
       world := w1\<rparr>"
  using assms
  by (simp add: accept_step emit_def on_accept_def clearTimeout_def Let_def)

lemma reject_state:
  assumes "content m \<noteq> ''exit''" and "\<not> stopped s"
    and "func m data (world s) = (Inl (Rejection msg), w1)"
    and "channel (Format (invalidFeedback (Rejection msg))) w1 = (res, w2)"
  shows "deliver channel func data s (MessageEvent m) =
     s\<lparr>node := (case res of
                   Inl err \<Rightarrow> storeMessage m (node s)
                 | Inr feedback \<Rightarrow> storeMessage feedback (storeMessage m (node s))),
       promise := (case res of Inl err \<Rightarrow> reject err (promise s) | Inr feedback \<Rightarrow> promise s),
       emitted := emitted s @ [EmitReject m (Rejection msg)],
       world := w2\<rparr>"
  using assms
  by (cases res) (simp_all add: reject_step emit_def on_reject_def Let_def)



subsection \<open>The timer calls of a phase\<close>

lemma handleMessage_timer:
  "timer (snd (handleMessage ch m f d s)) = timer s"
  "timer_calls (snd (handleMessage ch m f d s)) = timer_calls s"
  by (simp_all add: handleMessage_def emit_fields split: prod.splits sum.splits thrown.splits)

lemma on_message_timer:
  "(timer (on_message ch f d m s) = timer s \<and> timer_calls (on_message ch f d m s) = timer_calls s
      \<and> \<not> fst (handleMessage ch m f d s))
   \<or> (timer (on_message ch f d m s) = None
      \<and> timer_calls (on_message ch f d m s) = timer_calls s @ [ClearTimeout]
      \<and> fst (handleMessage ch m f d s))"
  using handleMessage_timer[of ch m f d s]
  by (cases "handleMessage ch m f d s") (simp add: on_message_def clearTimeout_def emit_fields)

lemma deliver_timer_calls:
  "\<exists>k. timer_calls (deliver ch f d s ev) = timer_calls s @ replicate k ClearTimeout"
proof (cases ev)
  case (MessageEvent m)
  show ?thesis
  proof (cases "stopped s")
    case True
    then have "timer_calls (deliver ch f d s ev) = timer_calls s @ replicate 0 ClearTimeout"
      by (simp add: MessageEvent deliver_def)
    then show ?thesis ..
  next
    case False
    from on_message_timer[of ch f d m s] show ?thesis
    proof
      assume "timer (on_message ch f d m s) = timer s \<and> timer_calls (on_message ch f d m s) = timer_calls s
          \<and> \<not> fst (handleMessage ch m f d s)"
      then have "timer_calls (deliver ch f d s ev) = timer_calls s @ replicate 0 ClearTimeout"
        using False by (simp add: MessageEvent deliver_def)
      then show ?thesis ..
    next
      assume "timer (on_message ch f d m s) = None
        \<and> timer_calls (on_message ch f d m s) = timer_calls s @ [ClearTimeout]
        \<and> fst (handleMessage ch m f d s)"
      then have "timer_calls (deliver ch f d s ev) = timer_calls s @ replicate 1 ClearTimeout"
        using False by (simp add: MessageEvent deliver_def)
      then show ?thesis ..
    qed
  qed
next
  case TimeoutEvent
  have "timer_calls (deliver ch f d s ev) = timer_calls s @ replicate 0 ClearTimeout"
    by (simp add: TimeoutEvent deliver_def on_timeout_def emit_fields)
  then show ?thesis ..
qed

lemma collect_events_timer_calls:
  "\<exists>k. timer_calls (collect_events ch f d s evs) = timer_calls s @ replicate k ClearTimeout"
proof (induction evs arbitrary: s)
  case Nil
  have "timer_calls (collect_events ch f d s []) = timer_calls s @ replicate 0 ClearTimeout"
    by (simp add: collect_events_Nil)
  then show ?case ..
next
  case (Cons ev evs)
  obtain k where k: "timer_calls (deliver ch f d s ev) = timer_calls s @ replicate k ClearTimeout"
    using deliver_timer_calls[of ch f d s ev] by auto
  obtain j where "timer_calls (collect_events ch f d (deliver ch f d s ev) evs)
      = timer_calls (deliver ch f d s ev) @ replicate j ClearTimeout"
    using Cons.IH[of "deliver ch f d s ev"] by auto
  then have "timer_calls (collect_events ch f d s (ev # evs))
      = timer_calls s @ replicate (k + j) ClearTimeout"
    by (simp add: collect_events_Cons k replicate_add)
  then show ?case ..
qed

lemma armings_clears [simp]: "armings (xs @ replicate k ClearTimeout) = armings xs"
  by (simp add: armings_def)

subsection \<open>A phase with no timer\<close>

lemma untimed_deliver:
  assumes "untimed s"
  shows "untimed (deliver channel func data s ev)"
proof (cases ev)
  case TimeoutEvent
  with assms show ?thesis by (simp add: deliver_def untimed_def)
next
  case (MessageEvent m)
  show ?thesis
  proof (cases "stopped s")
    case True
    with assms show ?thesis by (simp add: MessageEvent deliver_def)
  next
    case False
    with assms have st: "phase_status s = COLLECTING" by (simp add: untimed_def)
    show ?thesis
    proof (cases "content m = ''exit''")
      case True
      obtain res w1 where "channel (Format STRINGS_exit) (world s) = (res, w1)"
        by (cases "channel (Format STRINGS_exit) (world s)")
      note e = exit_state[where channel = channel and func = func and data = data, OF True False this]
      show ?thesis
        using assms st unfolding MessageEvent e
        by (cases res; cases "promise s")
           (simp_all add: untimed_def phase_status_def status_of_append stopped_emitted
             resolve_def reject_def)
    next
      case ne: False
      obtain r w1 where f: "func m data (world s) = (r, w1)" by (cases "func m data (world s)")
      show ?thesis
      proof (cases r)
        case (Inr newData)
        note e = accept_state[where channel = channel and func = func and data = data,
            OF ne False f[unfolded Inr]]
        show ?thesis
          using assms st unfolding MessageEvent e
          by (cases "promise s")
             (simp_all add: untimed_def phase_status_def status_of_append stopped_emitted
               resolve_def)
      next
        case (Inl err)
        show ?thesis
        proof (cases err)
          case (Failure x)
          note e = error_state[where channel = channel and func = func and data = data,
              OF ne False f[unfolded Inl Failure]]
          show ?thesis
            using assms st unfolding MessageEvent e
            by (cases "promise s")
               (simp_all add: untimed_def phase_status_def status_of_append stopped_emitted
                 reject_def)
        next
          case (Rejection msg)
          obtain res w2 where "channel (Format (invalidFeedback (Rejection msg))) w1 = (res, w2)"
            by (cases "channel (Format (invalidFeedback (Rejection msg))) w1")
          note e = reject_state[where channel = channel and func = func and data = data,
              OF ne False f[unfolded Inl Rejection] this]
          show ?thesis
            using assms st False unfolding MessageEvent e
            by (cases res; cases "promise s")
               (simp_all add: untimed_def phase_status_def status_of_append stopped_emitted
                 reject_def)
        qed
      qed
    qed
  qed
qed

lemma untimed_collect_events:
  "untimed s \<Longrightarrow> untimed (collect_events channel func data s evs)"
  unfolding collect_events_def
  by (induction evs arbitrary: s) (simp_all add: untimed_deliver)

section \<open>Lemmas on the loop of execute\<close>

lemma execute_loop_settled:
  "execute_loop channel createCollector runner p data w =
     (let s = collect channel createCollector p data None w in
      case promise s of
        Pending \<Rightarrow> (Awaiting, runner, world s)
      | Rejected err \<Rightarrow> (Thrown err, runner, world s)
      | Resolved r \<Rightarrow>
          (case getNext (node s) (ret_data r) (world s) of
             (Inl err, w1) \<Rightarrow> (Thrown err, runner, w1)
           | (Inr None, w1) \<Rightarrow> (Completed, runner, w1)
           | (Inr (Some next), w1) \<Rightarrow>
               (case sendMessage channel next (ret_data r) w1 of
                  (Inl err, w2) \<Rightarrow> (Thrown err, runner, w2)
                | (Inr (sent, next'), w2) \<Rightarrow>
                    execute_loop channel createCollector
                      (runner\<lparr>ran := ran runner @ [next]\<rparr>) next' (ret_data r) w2)))"
  by (subst execute_loop.simps) (simp add: shouldRunCollector_def Let_def split: promise.split)

lemma execute_loop_pending:
  "promise (collect channel createCollector p data None w) = Pending \<Longrightarrow>
   execute_loop channel createCollector runner p data w
     = (Awaiting, runner, world (collect channel createCollector p data None w))"
  by (simp add: execute_loop_settled)

lemma execute_loop_rejected:
  "promise (collect channel createCollector p data None w) = Rejected err \<Longrightarrow>
   execute_loop channel createCollector runner p data w
     = (Thrown err, runner, world (collect channel createCollector p data None w))"
  by (simp add: execute_loop_settled)

lemma getNext_child:
  assumes "getNext (node (collect ch cc p d tm w)) d' w1 = (Inr (Some c), w')"
  shows "c \<in> set (children p)"
proof -
  have "c \<in> set (children (node (collect ch cc p d tm w)))"
    using assms by (simp add: getNext_def getNext_loop_member)
  moreover have "kept (children p) (collect ch cc p d tm w)" by (rule kept_collect)
  ultimately show ?thesis by (auto simp: kept_def)
qed

lemma sendMessage_Inr:
  "sendMessage ch p d w = (Inr (sent, p'), w') \<Longrightarrow> p' = storeMessage sent p"
  by (auto simp: sendMessage_def split: prod.splits sum.splits)

text \<open>
  The trace grows at its end, and only by nodes below the current node; so the node
  \<open>execute\<close> starts from is recorded once.
\<close>

lemma execute_loop_trace:
  "\<exists>xs. ran (fst (snd (execute_loop ch cc rn p d w))) = ran rn @ xs
      \<and> (\<forall>x\<in>set xs. size x \<le> size_list size (children p))"
proof (induction ch cc rn p d w rule: execute_loop.induct)
  case (1 ch cc rn p d w)
  let ?s = "collect ch cc p d None w"
  show ?case
  proof (cases "promise ?s")
    case Pending
    then show ?thesis by (simp add: execute_loop_settled)
  next
    case (Rejected e)
    then show ?thesis by (simp add: execute_loop_settled)
  next
    case (Resolved r)
    obtain res w1 where g: "getNext (node ?s) (ret_data r) (world ?s) = (res, w1)"
      by (cases "getNext (node ?s) (ret_data r) (world ?s)")
    show ?thesis
    proof (cases res)
      case (Inl e)
      with Resolved g show ?thesis by (simp add: execute_loop_settled)
    next
      case (Inr nopt)
      show ?thesis
      proof (cases nopt)
        case None
        with Resolved g Inr show ?thesis by (simp add: execute_loop_settled)
      next
        case (Some nxt)
        obtain res2 w2 where sm: "sendMessage ch nxt (ret_data r) w1 = (res2, w2)"
          by (cases "sendMessage ch nxt (ret_data r) w1")
        show ?thesis
        proof (cases res2)
          case (Inl e)
          with Resolved g Inr Some sm show ?thesis by (simp add: execute_loop_settled)
        next
          case (Inr pr)
          obtain sent next' where pr: "pr = (sent, next')" by (cases pr)
          have mem: "nxt \<in> set (children p)"
            using g \<open>res = Inr nopt\<close> Some by (auto intro: getNext_child)
          have n': "next' = storeMessage sent nxt"
            using sm Inr pr by (auto intro: sendMessage_Inr)
          have "\<exists>xs. ran (fst (snd (execute_loop ch cc (rn\<lparr>ran := ran rn @ [nxt]\<rparr>) next' (ret_data r) w2)))
                  = ran (rn\<lparr>ran := ran rn @ [nxt]\<rparr>) @ xs
                \<and> (\<forall>x\<in>set xs. size x \<le> size_list size (children next'))"
            using Resolved g \<open>res = Inr nopt\<close> Some sm Inr pr
            by (intro "1.IH"[where x = ?s and xd = sent]) (auto simp: shouldRunCollector_def)
          then obtain xs where xs:
            "ran (fst (snd (execute_loop ch cc (rn\<lparr>ran := ran rn @ [nxt]\<rparr>) next' (ret_data r) w2)))
               = ran rn @ nxt # xs"
            "\<forall>x\<in>set xs. size x \<le> size_list size (children next')"
            by auto
          have le: "size nxt \<le> size_list size (children p)"
            using mem by (simp add: size_list_estimation')
          have "size_list size (children next') < size nxt"
            unfolding n' by (cases nxt) simp
          with xs(2) le have "\<forall>x\<in>set (nxt # xs). size x \<le> size_list size (children p)"
            by fastforce
          moreover have "execute_loop ch cc rn p d w
              = execute_loop ch cc (rn\<lparr>ran := ran rn @ [nxt]\<rparr>) next' (ret_data r) w2"
            using Resolved g \<open>res = Inr nopt\<close> Some sm Inr pr
            by (simp add: execute_loop_settled)
          ultimately show ?thesis using xs(1) by metis
        qed
      qed
    qed
  qed
qed

lemma execute_trace:
  "count_list (ran (fst (snd (execute ch cc rn p w)))) p = count_list (ran rn) p + 1"
proof (cases "sendMessage ch p (initialData rn) w")
  case (Pair res w1)
  show ?thesis
  proof (cases res)
    case (Inl e)
    with Pair show ?thesis by (simp add: execute_def)
  next
    case (Inr pr)
    obtain sent p' where pr: "pr = (sent, p')" by (cases pr)
    have p': "p' = storeMessage sent p" using Pair Inr pr by (auto intro: sendMessage_Inr)
    obtain xs where xs:
      "ran (fst (snd (execute_loop ch cc (rn\<lparr>ran := ran rn @ [p]\<rparr>) p' (initialData rn) w1)))
         = (ran rn @ [p]) @ xs"
      "\<forall>x\<in>set xs. size x \<le> size_list size (children p')"
      using execute_loop_trace[of ch cc "rn\<lparr>ran := ran rn @ [p]\<rparr>" p' "initialData rn" w1]
      by auto
    have "size_list size (children p') < size p" unfolding p' by (cases p) simp
    with xs(2) have "p \<notin> set xs" by fastforce
    then have "count_list xs p = 0" by (simp add: count_list_0_iff)
    then show ?thesis using Pair Inr pr xs(1) by (simp add: execute_def)
  qed
qed

text \<open>
  A phase that ends by a failure of the function, after any events that left it
  collecting.
\<close>

lemma failed_run:
  assumes "phase_function p = Some func"
    and "createCollector None w = (before @ MessageEvent m # after, w0)"
    and "s = collect_events channel func data (handleCollector (duration p) (collect_begin p w0)) before"
    and "promise s = Pending" and "\<not> stopped s"
    and "content m \<noteq> ''exit''"
    and "func m data (world s) = (Inl (Failure x), w1)"
  shows "collect channel createCollector p data None w = deliver channel func data s (MessageEvent m)"
    and "execute_loop channel createCollector runner p data w = (Thrown (Failure x), runner, w1)"
proof -
  let ?s' = "deliver channel func data s (MessageEvent m)"
  note st = error_state[where channel = channel and func = func, OF assms(6,5,7)]
  have f: "promise ?s' = Rejected (Failure x)" "world ?s' = w1" "timer ?s' = None" "stopped ?s'"
    using assms(4) by (simp_all add: st reject_def stopped_emitted)
  show c: "collect channel createCollector p data None w = ?s'"
    using assms(1-3) f(4,3) by (rule collect_ends)
  show "execute_loop channel createCollector runner p data w = (Thrown (Failure x), runner, w1)"
    using execute_loop_rejected[of channel createCollector p data w "Failure x" runner] c f(1,2)
    by simp
qed

text \<open>The example step after a rejected reply, and as its phase begins.\<close>

lemma after_rejected_reply:
  "collect_events logging_channel reply_function ''data''
     (handleCollector (duration phase0) (collect_begin phase0 [''createCollector'']))
     [MessageEvent (Message ''no'')]
   = \<lparr>node = storeMessage (Message ''That is not a valid input. Try again.'')
                (storeMessage (Message ''no'') phase0),
      promise = Pending, timer = Some 60000, timer_calls = [SetTimeout 60000],
      emitted = [EmitReject (Message ''no'') (Rejection [])],
      world = [''createCollector'', ''function'', ''That is not a valid input. Try again.'']\<rparr>"
proof -
  let ?s0 = "handleCollector (duration phase0) (collect_begin phase0 [''createCollector''])"
  have s0: "?s0 = \<lparr>node = phase0, promise = Pending, timer = Some 60000,
      timer_calls = [SetTimeout 60000], emitted = [], world = [''createCollector'']\<rparr>"
    by (simp add: handleCollector_def collect_begin_def phase0_def step_def)
  have "deliver logging_channel reply_function ''data'' ?s0 (MessageEvent (Message ''no''))
      = ?s0\<lparr>node := (case Inr (Message ''That is not a valid input. Try again.'') :: thrown + message of
                   Inl err \<Rightarrow> storeMessage (Message ''no'') (node ?s0)
                 | Inr feedback \<Rightarrow> storeMessage feedback (storeMessage (Message ''no'') (node ?s0))),
       promise := (case Inr (Message ''That is not a valid input. Try again.'') :: thrown + message of
                   Inl err \<Rightarrow> reject err (promise ?s0) | Inr feedback \<Rightarrow> promise ?s0),
       emitted := emitted ?s0 @ [EmitReject (Message ''no'') (Rejection [])],
       world := [''createCollector'', ''function'', ''That is not a valid input. Try again.'']\<rparr>"
    by (rule reject_state[where msg = "[]" and ?w1.0 = "[''createCollector'', ''function'']"])
       (simp_all add: s0 stopped_emitted reply_function_def logging_channel_def STRINGS_rejected_def)
  then show ?thesis
    by (simp add: collect_events_Cons collect_events_Nil s0)
qed


section \<open>Lemmas on the two designs of the tree\<close>

lemma as_PromptNode_sel:
  "prompt_condition (node_prompt (as_PromptNode p)) = condition p"
  "node_children (as_PromptNode p) = map as_PromptNode (children p)"
  by (cases p; simp)+

lemma hasValidChildren_loop_iff:
  "hasValidChildren_loop (map as_PromptNode cs) = (\<forall>c\<in>set cs. condition c \<noteq> None)"
  by (induction cs) (simp_all add: as_PromptNode_sel)

lemma hasValidChildren_iff:
  "hasValidChildren (as_PromptNode n)
     = (1 < length (children n) \<longrightarrow> (\<forall>c\<in>set (children n). condition c \<noteq> None))"
  by (auto simp: hasValidChildren_def as_PromptNode_sel hasValidChildren_loop_iff)

lemma PromptNode_getNext_loop_eq:
  "PromptNode_getNext_loop (map as_PromptNode cs) data w
     = (case getNext_loop cs data w of
          (Inl err, w') \<Rightarrow> (Inl err, w')
        | (Inr r, w') \<Rightarrow> (Inr (map_option as_PromptNode r), w'))"
  by (induction cs arbitrary: w)
     (simp_all add: as_PromptNode_sel split: option.splits prod.splits sum.splits)

lemma PromptNode_getNext_eq:
  "PromptNode_getNext (as_PromptNode this) data w
     = (case getNext this data w of
          (Inl err, w') \<Rightarrow> (Inl err, w')
        | (Inr r, w') \<Rightarrow> (Inr (map_option as_PromptNode r), w'))"
  by (simp add: PromptNode_getNext_def getNext_def as_PromptNode_sel PromptNode_getNext_loop_eq)

section \<open>Validation of the tree\<close>

lemma valid_loop_iff:
  "valid_loop m cs = ((m \<longrightarrow> (\<forall>c\<in>set cs. condition c \<noteq> None)) \<and> (\<forall>c\<in>set cs. valid c))"
  by (induction cs) auto

lemma valid_reachable:
  "valid r =
     (\<forall>n \<in> set (reachable r).
        1 < length (children n) \<longrightarrow> (\<forall>c \<in> set (children n). condition c \<noteq> None))"
proof (induction r)
  case (Phase fg f c d ms cs)
  have "valid (Phase fg f c d ms cs) =
        ((1 < length cs \<longrightarrow> (\<forall>c\<in>set cs. condition c \<noteq> None)) \<and> (\<forall>c\<in>set cs. valid c))"
    by (simp add: valid_loop_iff)
  also have "(\<forall>c\<in>set cs. valid c) =
     (\<forall>c\<in>set cs. \<forall>n \<in> set (reachable c).
        1 < length (children n) \<longrightarrow> (\<forall>k \<in> set (children n). condition k \<noteq> None))"
    using Phase.IH by blast
  finally show ?case by auto
qed

text \<open>
  Claim C1.  \<open>valid root\<close> is true if and only if every node reachable from the root
  that has more than one child has a condition on each of its children.  Nodes with no
  child or a single child put no requirement on their children, at any depth: they do
  not occur on the right-hand side.  The same holds in terms of \<open>hasValidChildren\<close>:
  \<open>valid root\<close> is true if and only if \<open>hasValidChildren\<close> holds of every reachable
  node.
\<close>

theorem valid_iff_conditions_where_branching:
  "(valid root =
      (\<forall>n \<in> set (reachable root).
         1 < length (children n) \<longrightarrow> (\<forall>c \<in> set (children n). condition c \<noteq> None)))
   \<and> (valid root = (\<forall>n \<in> set (reachable root). hasValidChildren (as_PromptNode n)))"
proof (intro conjI)
  show "valid root =
      (\<forall>n \<in> set (reachable root).
         1 < length (children n) \<longrightarrow> (\<forall>c \<in> set (children n). condition c \<noteq> None))"
    by (rule valid_reachable)
  then show "valid root = (\<forall>n \<in> set (reachable root). hasValidChildren (as_PromptNode n))"
    by (simp add: hasValidChildren_iff)
qed

text \<open>The two trees of the tests: the first is valid, the second is not.\<close>

theorem valid_iff_conditions_where_branching_witness:
  "valid tree_valid \<and> \<not> valid tree_invalid"
proof -
  have "\<forall>n \<in> set (reachable tree_valid).
        1 < length (children n) \<longrightarrow> (\<forall>c \<in> set (children n). condition c \<noteq> None)"
    by (simp add: tree_valid_def step_def)
  then have a: "valid tree_valid"
    using valid_iff_conditions_where_branching[of tree_valid, THEN conjunct1] by simp
  have "\<not> (\<forall>n \<in> set (reachable tree_invalid).
        1 < length (children n) \<longrightarrow> (\<forall>c \<in> set (children n). condition c \<noteq> None))"
    by (simp add: tree_invalid_def step_def)
  then have b: "\<not> valid tree_invalid"
    using valid_iff_conditions_where_branching[of tree_invalid, THEN conjunct1] by simp
  from a b show ?thesis by (rule conjI)
qed

section \<open>Selection of the next node\<close>

lemma getNext_loop_rejects:
  "rejects pre data w = Some w1 \<Longrightarrow> getNext_loop (pre @ rest) data w = getNext_loop rest data w1"
  by (induction pre arbitrary: w)
     (auto split: option.splits prod.splits sum.splits bool.splits if_splits)

lemma getNext_loop_admits:
  "admits c data w1 = Some w' \<Longrightarrow> getNext_loop (c # post) data w1 = (Inr (Some c), w')"
  by (auto simp: admits_def split: option.splits prod.splits sum.splits bool.splits if_splits)

lemma getNext_loop_result:
  "getNext_loop cs data w = (Inr r, w') \<Longrightarrow>
     (case r of
        None \<Rightarrow> rejects cs data w = Some w'
      | Some c \<Rightarrow> (\<exists>pre post w1. cs = pre @ c # post \<and> rejects pre data w = Some w1
                      \<and> admits c data w1 = Some w'))"
proof (induction cs arbitrary: w)
  case Nil
  then show ?case by auto
next
  case (Cons a cs)
  show ?case
  proof (cases "condition a")
    case None
    with Cons.prems have "r = Some a" "w' = w" by auto
    moreover have "\<exists>pre post w1. a # cs = pre @ a # post \<and> rejects pre data w = Some w1
        \<and> admits a data w1 = Some w"
      using None
      by (intro exI[of _ "[]"] exI[of _ cs] exI[of _ w]) (simp add: admits_def)
    ultimately show ?thesis by simp
  next
    case (Some cond)
    obtain res w2 where c: "cond data w = (res, w2)" by (cases "cond data w")
    show ?thesis
    proof (cases res)
      case (Inl e)
      with Cons.prems Some c show ?thesis by simp
    next
      case (Inr holds)
      show ?thesis
      proof (cases holds)
        case True
        with Cons.prems Some c Inr have "r = Some a" "w' = w2" by auto
        moreover have "\<exists>pre post w1. a # cs = pre @ a # post \<and> rejects pre data w = Some w1
            \<and> admits a data w1 = Some w2"
          using Some c Inr True
          by (intro exI[of _ "[]"] exI[of _ cs] exI[of _ w]) (simp add: admits_def)
        ultimately show ?thesis by simp
      next
        case False
        with Cons.prems Some c Inr have "getNext_loop cs data w2 = (Inr r, w')" by simp
        from Cons.IH[OF this] show ?thesis
        proof (cases r)
          case None
          with \<open>case r of None \<Rightarrow> _ | Some c \<Rightarrow> _\<close> show ?thesis
            using Some c Inr False by simp
        next
          case (Some k)
          with \<open>case r of None \<Rightarrow> _ | Some c \<Rightarrow> _\<close>
          obtain pre post w1 where "cs = pre @ k # post" "rejects pre data w2 = Some w1"
            "admits k data w1 = Some w'" by auto
          then have "\<exists>pre' post w1. a # cs = pre' @ k # post \<and> rejects pre' data w = Some w1
              \<and> admits k data w1 = Some w'"
            using \<open>condition a = Some cond\<close> c Inr False
            by (intro exI[of _ "a # pre"] exI[of _ post] exI[of _ w1]) simp
          then show ?thesis using Some by simp
        qed
      qed
    qed
  qed
qed

text \<open>
  Claim C2.  \<open>getNext\<close> evaluates the conditions of the children in declared order and
  returns the first child that has no condition or whose condition holds: when the
  children before \<open>c\<close> are all rejected and \<open>c\<close> is admitted, \<open>c\<close> is returned in the
  world that the condition of \<open>c\<close> left, whatever the children after \<open>c\<close> are, so none
  of their conditions ran.  It returns null when every child is rejected, and so when
  there is no child.  Conversely a value it returns is one of these two.
  \<open>PromptNode.getNext\<close> selects the same child in the same world.
\<close>

theorem getNext_first_eligible:
  "(children this = pre @ c # post \<and> rejects pre data w = Some w1 \<and> admits c data w1 = Some w'
      \<longrightarrow> getNext this data w = (Inr (Some c), w'))
   \<and> (rejects (children this) data w = Some w' \<longrightarrow> getNext this data w = (Inr None, w'))
   \<and> (children this = [] \<longrightarrow> getNext this data w = (Inr None, w))
   \<and> (getNext this data w = (Inr r, w') \<longrightarrow>
        (case r of
           None \<Rightarrow> rejects (children this) data w = Some w'
         | Some k \<Rightarrow> (\<exists>pre post w1. children this = pre @ k # post
                         \<and> rejects pre data w = Some w1 \<and> admits k data w1 = Some w')))
   \<and> PromptNode_getNext (as_PromptNode this) data w
       = (case getNext this data w of
            (Inl err, w') \<Rightarrow> (Inl err, w')
          | (Inr r, w') \<Rightarrow> (Inr (map_option as_PromptNode r), w'))"
proof (intro conjI impI)
  assume a: "children this = pre @ c # post \<and> rejects pre data w = Some w1 \<and> admits c data w1 = Some w'"
  then have "getNext this data w = getNext_loop (pre @ c # post) data w"
    by (simp add: getNext_def)
  also have "\<dots> = getNext_loop (c # post) data w1"
    using a by (intro getNext_loop_rejects) simp
  also have "\<dots> = (Inr (Some c), w')"
    using a by (intro getNext_loop_admits) simp
  finally show "getNext this data w = (Inr (Some c), w')" .
next
  assume "rejects (children this) data w = Some w'"
  from getNext_loop_rejects[OF this, of "[]"] show "getNext this data w = (Inr None, w')"
    by (simp add: getNext_def)
next
  assume "children this = []"
  then show "getNext this data w = (Inr None, w)" by (simp add: getNext_def)
next
  assume "getNext this data w = (Inr r, w')"
  then show "case r of
           None \<Rightarrow> rejects (children this) data w = Some w'
         | Some k \<Rightarrow> (\<exists>pre post w1. children this = pre @ k # post
                         \<and> rejects pre data w = Some w1 \<and> admits k data w1 = Some w')"
    unfolding getNext_def by (rule getNext_loop_result)
next
  show "PromptNode_getNext (as_PromptNode this) data w
       = (case getNext this data w of
            (Inl err, w') \<Rightarrow> (Inl err, w')
          | (Inr r, w') \<Rightarrow> (Inr (map_option as_PromptNode r), w'))"
    by (rule PromptNode_getNext_eq)
qed

text \<open>
  Children \<open>A\<close> (false), \<open>B\<close> (true), \<open>C\<close> (true): \<open>B\<close> is returned and the log holds
  the conditions of \<open>A\<close> and \<open>B\<close> only.
\<close>

theorem getNext_first_eligible_witness:
  "getNext display_only ''data'' [] = (Inr (Some child_B), [''A'', ''B''])"
proof -
  have "children display_only = [child_A] @ child_B # [child_C]
      \<and> rejects [child_A] ''data'' [] = Some [''A'']
      \<and> admits child_B ''data'' [''A''] = Some [''A'', ''B'']"
    by (simp add: display_only_def step_def child_A_def child_B_def admits_def named_condition_def)
  from getNext_first_eligible[of display_only "[child_A]" child_B "[child_C]" "''data''" "[]"
      "[''A'']" "[''A'', ''B'']", THEN conjunct1, THEN mp, OF this]
  show ?thesis .
qed

section \<open>The inactivity timer\<close>

text \<open>
  Claim C3, amended.  A collection phase whose duration is not zero arms its timer
  once, when it starts and with that duration: every later call is a \<open>clearTimeout\<close>.
  A reply that the function rejects leaves the pending timeout and the calls as they
  are.  A reply that ends the phase (the exit reply, an accepted reply, a failure of the
  function) clears the timeout.
\<close>

theorem timer_armed_once_for_nonzero_duration:
  assumes "duration p \<noteq> 0" and "phase_function p = Some func"
  shows "timer (handleCollector (duration p) (collect_begin p w)) = Some (duration p)
       \<and> timer_calls (handleCollector (duration p) (collect_begin p w)) = [SetTimeout (duration p)]
       \<and> (\<exists>k. timer_calls (collect channel createCollector p data triggerMessage w)
                 = SetTimeout (duration p) # replicate k ClearTimeout)
       \<and> armings (timer_calls (collect channel createCollector p data triggerMessage w))
           = [SetTimeout (duration p)]
       \<and> (\<not> stopped s \<and> content m \<noteq> ''exit'' \<and> fst (func m data (world s)) = Inl (Rejection msg)
            \<longrightarrow> timer (deliver channel func data s (MessageEvent m)) = timer s
              \<and> timer_calls (deliver channel func data s (MessageEvent m)) = timer_calls s)
       \<and> (\<not> stopped s \<and> (content m = ''exit'' \<or> fst (func m data (world s)) = Inr newData
                           \<or> fst (func m data (world s)) = Inl (Failure x))
            \<longrightarrow> timer (deliver channel func data s (MessageEvent m)) = None
              \<and> timer_calls (deliver channel func data s (MessageEvent m))
                  = timer_calls s @ [ClearTimeout])"
proof -
  let ?s0 = "\<lambda>w. handleCollector (duration p) (collect_begin p w)"
  have 1: "timer (?s0 w) = Some (duration p)" for w
    using assms(1) by (simp add: handleCollector_def)
  have 2: "timer_calls (?s0 w) = [SetTimeout (duration p)]" for w
    using assms(1) by (simp add: handleCollector_def collect_begin_def)
  obtain evs w0 where cc: "createCollector triggerMessage w = (evs, w0)"
    by (cases "createCollector triggerMessage w")
  obtain k where "timer_calls (collect_events channel func data (?s0 w0) evs)
      = timer_calls (?s0 w0) @ replicate k ClearTimeout"
    using collect_events_timer_calls[of channel func data "?s0 w0" evs] by auto
  then have c: "timer_calls (collect channel createCollector p data triggerMessage w)
      = SetTimeout (duration p) # replicate k ClearTimeout"
    using assms(2) cc by (simp add: collect_def 2)
  then have 3: "\<exists>k. timer_calls (collect channel createCollector p data triggerMessage w)
                 = SetTimeout (duration p) # replicate k ClearTimeout" ..
  have 4: "armings (timer_calls (collect channel createCollector p data triggerMessage w))
           = [SetTimeout (duration p)]"
    using armings_clears[of "[SetTimeout (duration p)]" k] by (simp add: c armings_def)
  have 5: "\<not> stopped s \<and> content m \<noteq> ''exit'' \<and> fst (func m data (world s)) = Inl (Rejection msg)
            \<longrightarrow> timer (deliver channel func data s (MessageEvent m)) = timer s
              \<and> timer_calls (deliver channel func data s (MessageEvent m)) = timer_calls s"
    by (cases "func m data (world s)")
       (auto simp: deliver_def on_message_def handleMessage_def emit_fields)
  have 6: "\<not> stopped s \<and> (content m = ''exit'' \<or> fst (func m data (world s)) = Inr newData
                           \<or> fst (func m data (world s)) = Inl (Failure x))
            \<longrightarrow> timer (deliver channel func data s (MessageEvent m)) = None
              \<and> timer_calls (deliver channel func data s (MessageEvent m))
                  = timer_calls s @ [ClearTimeout]"
    by (cases "func m data (world s)")
       (auto simp: deliver_def on_message_def handleMessage_def emit_fields clearTimeout_def)
  show ?thesis
    by (intro conjI) (rule 1, rule 2, rule 3, rule 4, rule 5, rule 6)
qed

text \<open>
  The default duration: the calls of a phase with a rejected reply and an accepted
  one, and the timer after each of the two replies to a phase that begins.
\<close>

theorem timer_armed_once_for_nonzero_duration_witness:
  "armings (timer_calls (collect logging_channel
      (scripted [MessageEvent (Message ''no''), MessageEvent (Message ''George'')])
      phase0 ''data'' None [])) = [SetTimeout 60000]
   \<and> timer (deliver logging_channel reply_function ''data'' collecting0
        (MessageEvent (Message ''no''))) = Some 60000
   \<and> timer_calls (deliver logging_channel reply_function ''data'' collecting0
        (MessageEvent (Message ''no''))) = [SetTimeout 60000]
   \<and> timer (deliver logging_channel reply_function ''data'' collecting0
        (MessageEvent (Message ''George''))) = None
   \<and> timer_calls (deliver logging_channel reply_function ''data'' collecting0
        (MessageEvent (Message ''George''))) = [SetTimeout 60000, ClearTimeout]"
proof -
  have a: "duration phase0 \<noteq> 0" by (simp add: phase0_def step_def)
  have b: "phase_function phase0 = Some reply_function" by (simp add: phase0_def step_def)
  have c: "duration phase0 = 60000" by (simp add: phase0_def step_def)
  have s0: "collecting0 = \<lparr>node = phase0, promise = Pending, timer = Some 60000,
      timer_calls = [SetTimeout 60000], emitted = [], world = []\<rparr>"
    by (simp add: collecting0_def handleCollector_def collect_begin_def phase0_def step_def)
  have d: "\<not> stopped collecting0" by (simp add: s0 stopped_emitted)
  have e: "fst (reply_function (Message ''no'') ''data'' (world collecting0)) = Inl (Rejection [])"
    by (simp add: reply_function_def)
  have f: "fst (reply_function (Message ''George'') ''data'' (world collecting0)) = Inr ''George''"
    by (simp add: reply_function_def)
  note t1 = timer_armed_once_for_nonzero_duration[OF a b, where channel = logging_channel
      and createCollector = "scripted [MessageEvent (Message ''no''), MessageEvent (Message ''George'')]"
      and data = "''data''" and triggerMessage = None and w = "[]" and s = collecting0
      and m = "Message ''no''" and msg = "[]"]
  note t2 = timer_armed_once_for_nonzero_duration[OF a b, where channel = logging_channel
      and data = "''data''" and s = collecting0
      and m = "Message ''George''" and newData = "''George''"]
  have 1: "armings (timer_calls (collect logging_channel
      (scripted [MessageEvent (Message ''no''), MessageEvent (Message ''George'')])
      phase0 ''data'' None [])) = [SetTimeout 60000]"
    using t1 by (simp add: c)
  have 2: "timer (deliver logging_channel reply_function ''data'' collecting0
        (MessageEvent (Message ''no''))) = timer collecting0
      \<and> timer_calls (deliver logging_channel reply_function ''data'' collecting0
        (MessageEvent (Message ''no''))) = timer_calls collecting0"
    using t1 d e by simp
  have 3: "timer (deliver logging_channel reply_function ''data'' collecting0
        (MessageEvent (Message ''George''))) = None
      \<and> timer_calls (deliver logging_channel reply_function ''data'' collecting0
        (MessageEvent (Message ''George''))) = timer_calls collecting0 @ [ClearTimeout]"
    using t2 d f by simp
  from 1 2 3 show ?thesis by (simp add: s0)
qed

text \<open>
  The claim as it stands, for every collection phase, fails for the duration zero:
  the phase makes no call to \<open>setTimeout\<close> and no timeout is ever pending.
\<close>

theorem timer_not_armed_for_zero_duration:
  "timer_calls (collect logging_channel (scripted [MessageEvent (Message ''no'')])
      phase_untimed ''data'' None []) = []
   \<and> timer (collect logging_channel (scripted [MessageEvent (Message ''no'')])
      phase_untimed ''data'' None []) = None"
  by (simp add: collect_def phase_untimed_def step_def scripted_def handleCollector_def
      collect_begin_def collect_events_Cons collect_events_Nil deliver_def stopped_emitted
      on_message_def handleMessage_def reply_function_def emit_fields)

section \<open>Exit and inactivity\<close>


section \<open>The exit reply\<close>

text \<open>
  Claim C5.  When a phase that is collecting receives a message whose content is
  \<open>exit\<close>, \<open>handleMessage\<close> emits \<open>exit\<close> and returns true without calling the function,
  and the phase ends in \<open>EXITED\<close>: the state after the message is the same for any two
  functions, and the only effect on the world is the sending of the exit string.
\<close>

theorem exit_token_before_function:
  assumes "content m = ''exit''" and "\<not> stopped s" and "phase_status s = COLLECTING"
  shows "handleMessage channel m func data s = (True, emit channel data (EmitExit m) s)
       \<and> phase_status (deliver channel func data s (MessageEvent m)) = EXITED
       \<and> deliver channel func data s (MessageEvent m) = deliver channel func' data s (MessageEvent m)
       \<and> world (deliver channel func data s (MessageEvent m))
           = snd (channel (Format STRINGS_exit) (world s))"
proof -
  have 1: "handleMessage channel m func data s = (True, emit channel data (EmitExit m) s)"
    using assms(1) by (simp add: handleMessage_def)
  have 2: "phase_status (deliver channel func data s (MessageEvent m)) = EXITED"
    using assms by (simp add: exit_step phase_status_def clearTimeout_def emit_fields status_of_append)
  have 3: "deliver channel func data s (MessageEvent m) = deliver channel func' data s (MessageEvent m)"
    using assms by (simp add: exit_step)
  have 4: "world (deliver channel func data s (MessageEvent m))
           = snd (channel (Format STRINGS_exit) (world s))"
    using assms by (simp add: exit_step listener_defs Let_def split: prod.splits sum.splits)
  from 1 2 3 4 show ?thesis by blast
qed

text \<open>The exit reply to the example step: the log holds no call of the function.\<close>

theorem exit_token_before_function_witness:
  "phase_status (deliver logging_channel reply_function ''data'' collecting0 (MessageEvent (Message ''exit''))) = EXITED
   \<and> world (deliver logging_channel reply_function ''data'' collecting0 (MessageEvent (Message ''exit'')))
       = [''Menu has been closed.'']"
proof -
  have a: "content (Message ''exit'') = ''exit''" by simp
  have b: "\<not> stopped collecting0"
    by (simp add: collecting0_def handleCollector_def collect_begin_def stopped_def)
  have c: "phase_status collecting0 = COLLECTING"
    by (simp add: collecting0_def handleCollector_def collect_begin_def phase_status_def)
  from exit_token_before_function[OF a b c, of logging_channel reply_function "''data''" reply_function]
  show ?thesis
    by (simp add: logging_channel_def STRINGS_exit_def collecting0_def handleCollector_def
        collect_begin_def)
qed

section \<open>Rejection\<close>

text \<open>
  Claim C6.  When the function rejects a message, the phase stays as it was but for
  this: the event \<open>reject\<close> is emitted, the message is stored, and the feedback is sent,
  which is the message of the rejection, or the default string when that is empty.  The
  feedback that was sent is stored after the message, and the promise is untouched; had
  the channel failed, the promise would be rejected with the error of the channel.  In
  both cases the phase is in the state it was in, its timer is as it was, the collector
  is not stopped, and the next message is handled.  The rejection reaches no caller:
  when the rejected message is the last event of a phase that was pending, \<open>execute\<close> is
  still waiting.
\<close>

theorem rejection_retries_in_place:
  assumes "content m \<noteq> ''exit''" and "\<not> stopped s"
    and "func m data (world s) = (Inl (Rejection msg), w1)"
    and "channel (Format (if msg = [] then STRINGS_rejected else msg)) w1 = (res, w2)"
  shows "deliver channel func data s (MessageEvent m)
           = s\<lparr>node := (case res of
                          Inl sendErr \<Rightarrow> storeMessage m (node s)
                        | Inr feedback \<Rightarrow> storeMessage feedback (storeMessage m (node s))),
                promise := (case res of
                          Inl sendErr \<Rightarrow> reject sendErr (promise s)
                        | Inr feedback \<Rightarrow> promise s),
                emitted := emitted s @ [EmitReject m (Rejection msg)],
                world := w2\<rparr>
       \<and> phase_status (deliver channel func data s (MessageEvent m)) = phase_status s
       \<and> \<not> stopped (deliver channel func data s (MessageEvent m))
       \<and> timer (deliver channel func data s (MessageEvent m)) = timer s
       \<and> deliver channel func data (deliver channel func data s (MessageEvent m)) (MessageEvent m')
           = on_message channel func data m' (deliver channel func data s (MessageEvent m))
       \<and> (res = Inr feedback \<longrightarrow>
            promise (deliver channel func data s (MessageEvent m)) = promise s
          \<and> messages (node (deliver channel func data s (MessageEvent m)))
              = messages (node s) @ [m, feedback])
       \<and> (res = Inr feedback
            \<and> phase_function p = Some func
            \<and> createCollector None w = (before @ [MessageEvent m], w0)
            \<and> s = collect_events channel func data
                    (handleCollector (duration p) (collect_begin p w0)) before
            \<and> promise s = Pending
          \<longrightarrow> execute_loop channel createCollector runner p data w = (Awaiting, runner, w2))"
proof -
  let ?s' = "deliver channel func data s (MessageEvent m)"
  have fb: "invalidFeedback (Rejection msg) = (if msg = [] then STRINGS_rejected else msg)"
    by simp
  have 1: "?s' = s\<lparr>node := (case res of
                          Inl sendErr \<Rightarrow> storeMessage m (node s)
                        | Inr feedback \<Rightarrow> storeMessage feedback (storeMessage m (node s))),
                promise := (case res of
                          Inl sendErr \<Rightarrow> reject sendErr (promise s)
                        | Inr feedback \<Rightarrow> promise s),
                emitted := emitted s @ [EmitReject m (Rejection msg)],
                world := w2\<rparr>"
    using assms(4)
    by (intro reject_state[where channel = channel and func = func, OF assms(1-3)])
       (simp only: fb)
  have 2: "phase_status ?s' = phase_status s"
    by (simp add: 1 phase_status_def status_of_append)
  have 3: "\<not> stopped ?s'" using assms(2) by (simp add: 1 stopped_emitted)
  have 4: "timer ?s' = timer s" by (simp add: 1)
  have 5: "deliver channel func data ?s' (MessageEvent m') = on_message channel func data m' ?s'"
    using 3 by (simp add: deliver_def)
  have 6: "res = Inr feedback \<longrightarrow>
            promise ?s' = promise s \<and> messages (node ?s') = messages (node s) @ [m, feedback]"
    by (simp add: 1)
  have 7: "res = Inr feedback
            \<and> phase_function p = Some func
            \<and> createCollector None w = (before @ [MessageEvent m], w0)
            \<and> s = collect_events channel func data
                    (handleCollector (duration p) (collect_begin p w0)) before
            \<and> promise s = Pending
          \<longrightarrow> execute_loop channel createCollector runner p data w = (Awaiting, runner, w2)"
  proof
    assume a: "res = Inr feedback
            \<and> phase_function p = Some func
            \<and> createCollector None w = (before @ [MessageEvent m], w0)
            \<and> s = collect_events channel func data
                    (handleCollector (duration p) (collect_begin p w0)) before
            \<and> promise s = Pending"
    then have c: "collect channel createCollector p data None w = ?s'"
      by (simp add: collect_def collect_events_append collect_events_Cons collect_events_Nil)
    from a have ps: "promise s = Pending" and r: "res = Inr feedback" by blast+
    have "promise ?s' = Pending" using 6 r ps by simp
    moreover have "world ?s' = w2" by (simp add: 1)
    ultimately show "execute_loop channel createCollector runner p data w = (Awaiting, runner, w2)"
      using execute_loop_pending[of channel createCollector p data w runner] c by simp
  qed
  show ?thesis
    by (intro conjI) (rule 1, rule 2, rule 3, rule 4, rule 5, rule 6, rule 7)
qed

text \<open>
  The reply \<open>no\<close> to the example step, and a run whose collector delivers this reply
  only.
\<close>

theorem rejection_retries_in_place_witness:
  "deliver logging_channel reply_function ''data'' collecting0 (MessageEvent (Message ''no''))
     = collecting0\<lparr>node := storeMessage (Message ''That is not a valid input. Try again.'')
                              (storeMessage (Message ''no'') (node collecting0)),
                   emitted := [EmitReject (Message ''no'') (Rejection [])],
                   world := [''function'', ''That is not a valid input. Try again.'']\<rparr>
   \<and> promise (deliver logging_channel reply_function ''data'' collecting0 (MessageEvent (Message ''no''))) = Pending
   \<and> execute_loop logging_channel (\<lambda>triggerMessage w. ([MessageEvent (Message ''no'')], w))
         runner0 phase0 ''data'' []
       = (Awaiting, runner0, [''function'', ''That is not a valid input. Try again.''])"
proof -
  let ?fb = "Message ''That is not a valid input. Try again.''"
  have a: "content (Message ''no'') \<noteq> ''exit''" by simp
  have b: "\<not> stopped collecting0"
    by (simp add: collecting0_def handleCollector_def collect_begin_def stopped_def)
  have c: "reply_function (Message ''no'') ''data'' (world collecting0) = (Inl (Rejection []), [''function''])"
    by (simp add: reply_function_def collecting0_def handleCollector_def collect_begin_def)
  have d: "logging_channel (Format (if [] = [] then STRINGS_rejected else [])) [''function'']
     = (Inr ?fb, [''function'', ''That is not a valid input. Try again.''])"
    by (simp add: logging_channel_def STRINGS_rejected_def)
  have e: "Inr ?fb = (Inr ?fb :: thrown + message)
      \<and> phase_function phase0 = Some reply_function
      \<and> (\<lambda>triggerMessage w. ([MessageEvent (Message ''no'')], w)) None [] = ([] @ [MessageEvent (Message ''no'')], [])
      \<and> collecting0 = collect_events logging_channel reply_function ''data''
                    (handleCollector (duration phase0) (collect_begin phase0 [])) []
      \<and> promise collecting0 = Pending"
    by (simp add: phase0_def step_def collecting0_def collect_events_Nil handleCollector_def
        collect_begin_def)
  note t = rejection_retries_in_place[where m = "Message ''no''" and s = collecting0
      and func = reply_function and data = "''data''" and channel = logging_channel
      and msg = "[]" and m' = "Message ''no''" and p = phase0 and before = "[]" and w = "[]"
      and createCollector = "\<lambda>triggerMessage w. ([MessageEvent (Message ''no'')], w)"
      and runner = runner0 and feedback = ?fb, OF a b c d]
  have 1: "execute_loop logging_channel (\<lambda>triggerMessage w. ([MessageEvent (Message ''no'')], w))
         runner0 phase0 ''data'' []
       = (Awaiting, runner0, [''function'', ''That is not a valid input. Try again.''])"
    using t e by blast
  have 2: "promise (deliver logging_channel reply_function ''data'' collecting0
      (MessageEvent (Message ''no''))) = promise collecting0"
    using t by blast
  have 3: "deliver logging_channel reply_function ''data'' collecting0 (MessageEvent (Message ''no''))
     = collecting0\<lparr>node := storeMessage ?fb (storeMessage (Message ''no'') (node collecting0)),
                   emitted := emitted collecting0 @ [EmitReject (Message ''no'') (Rejection [])],
                   world := [''function'', ''That is not a valid input. Try again.'']\<rparr>"
    using t[THEN conjunct1] by simp
  from 1 2 3 show ?thesis
    by (simp add: collecting0_def handleCollector_def collect_begin_def)
qed

section \<open>Failure of the function\<close>

text \<open>
  Claim C7.  When the function fails on a message with an error that is not a
  rejection, in a phase that is collecting, the phase ends in \<open>FAILED\<close>, its promise is
  rejected with that error, and \<open>execute\<close> ends with the same error.  The world is the
  one the function left: nothing is sent on the channel.
\<close>

theorem failure_aborts_run:
  assumes "phase_function p = Some func"
    and "createCollector None w = (before @ MessageEvent m # after, w0)"
    and "s = collect_events channel func data (handleCollector (duration p) (collect_begin p w0)) before"
    and "promise s = Pending" and "\<not> stopped s" and "phase_status s = COLLECTING"
    and "content m \<noteq> ''exit''"
    and "func m data (world s) = (Inl (Failure x), w1)"
  shows "phase_status (collect channel createCollector p data None w) = FAILED
       \<and> promise (collect channel createCollector p data None w) = Rejected (Failure x)
       \<and> world (collect channel createCollector p data None w) = w1
       \<and> messages (node (collect channel createCollector p data None w)) = messages (node s) @ [m]
       \<and> execute_loop channel createCollector runner p data w = (Thrown (Failure x), runner, w1)"
proof -
  note r = failed_run[where channel = channel and createCollector = createCollector,
      OF assms(1-5,7,8)]
  note st = error_state[where channel = channel and func = func, OF assms(7,5,8)]
  have "messages (node (collect channel createCollector p data None w)) = messages (node s) @ [m]"
    by (cases "node s") (simp add: r(1) st)
  then show ?thesis
    using assms(4,6) by (simp add: r st reject_def phase_status_def status_of_append)
qed

text \<open>A rejected reply, and then the reply on which the function fails.\<close>

theorem failure_aborts_run_witness:
  "execute_loop logging_channel (scripted [MessageEvent (Message ''no''), MessageEvent (Message ''boom'')])
     runner0 phase0 ''data'' []
   = (Thrown (Failure ''boom''), runner0,
      [''createCollector'', ''function'', ''That is not a valid input. Try again.'', ''function''])"
proof -
  let ?s = "collect_events logging_channel reply_function ''data''
     (handleCollector (duration phase0) (collect_begin phase0 [''createCollector'']))
     [MessageEvent (Message ''no'')]"
  have a: "phase_function phase0 = Some reply_function" by (simp add: phase0_def step_def)
  have b: "scripted [MessageEvent (Message ''no''), MessageEvent (Message ''boom'')] None []
      = ([MessageEvent (Message ''no'')] @ MessageEvent (Message ''boom'') # [], [''createCollector''])"
    by (simp add: scripted_def)
  have c: "?s = ?s" by (rule refl)
  have d: "promise ?s = Pending" by (simp add: after_rejected_reply)
  have d': "\<not> stopped ?s" by (simp add: after_rejected_reply stopped_emitted)
  have e: "phase_status ?s = COLLECTING" by (simp add: after_rejected_reply phase_status_def)
  have f: "content (Message ''boom'') \<noteq> ''exit''" by simp
  have g: "reply_function (Message ''boom'') ''data'' (world ?s)
      = (Inl (Failure ''boom''),
         [''createCollector'', ''function'', ''That is not a valid input. Try again.'', ''function''])"
    by (simp add: after_rejected_reply reply_function_def)
  from failure_aborts_run[where channel = logging_channel
      and createCollector = "scripted [MessageEvent (Message ''no''), MessageEvent (Message ''boom'')]"
      and func = reply_function and p = phase0 and runner = runner0 and data = "''data''",
      OF a b c d d' e f g]
  show ?thesis by simp
qed

section \<open>A step with no function\<close>

text \<open>
  Claim C8.  For a step with no function, \<open>collect\<close> resolves at once with the data
  unchanged: no collector is created and nothing is sent.  The loop of \<open>execute\<close> then
  selects among its children on the same data.  \<open>execute\<close> from such a step sends its
  content once before the loop, and the step is in the trace once more than before.
\<close>

theorem step_without_function_passes_through:
  assumes "phase_function p = None"
  shows "collect channel createCollector p data triggerMessage w
           = (collect_begin p w)\<lparr>promise := Resolved \<lparr>ret_message = None, ret_data = data\<rparr>\<rparr>
       \<and> execute_loop channel createCollector runner p data w
           = (case getNext p data w of
                (Inl err, w1) \<Rightarrow> (Thrown err, runner, w1)
              | (Inr None, w1) \<Rightarrow> (Completed, runner, w1)
              | (Inr (Some next), w1) \<Rightarrow>
                  (case sendMessage channel next data w1 of
                     (Inl err, w2) \<Rightarrow> (Thrown err, runner, w2)
                   | (Inr (sent, next'), w2) \<Rightarrow>
                       execute_loop channel createCollector
                         (runner\<lparr>ran := ran runner @ [next]\<rparr>) next' data w2))
       \<and> execute channel createCollector runner p w
           = (case channel (formatGenerator p (initialData runner)) w of
                (Inl err, w1) \<Rightarrow> (Thrown err, runner\<lparr>ran := ran runner @ [p]\<rparr>, w1)
              | (Inr sent, w1) \<Rightarrow>
                  execute_loop channel createCollector (runner\<lparr>ran := ran runner @ [p]\<rparr>)
                    (storeMessage sent p) (initialData runner) w1)
       \<and> count_list (ran (fst (snd (execute channel createCollector runner p w)))) p
           = count_list (ran runner) p + 1"
proof -
  have 1: "collect channel createCollector p data triggerMessage w
           = (collect_begin p w)\<lparr>promise := Resolved \<lparr>ret_message = None, ret_data = data\<rparr>\<rparr>"
    for triggerMessage
    using assms by (simp add: collect_def)
  have 2: "execute_loop channel createCollector runner p data w
           = (case getNext p data w of
                (Inl err, w1) \<Rightarrow> (Thrown err, runner, w1)
              | (Inr None, w1) \<Rightarrow> (Completed, runner, w1)
              | (Inr (Some next), w1) \<Rightarrow>
                  (case sendMessage channel next data w1 of
                     (Inl err, w2) \<Rightarrow> (Thrown err, runner, w2)
                   | (Inr (sent, next'), w2) \<Rightarrow>
                       execute_loop channel createCollector
                         (runner\<lparr>ran := ran runner @ [next]\<rparr>) next' data w2))"
    by (subst execute_loop_settled)
       (simp add: 1 collect_begin_def split: prod.split sum.split option.split)
  have 3: "execute channel createCollector runner p w
           = (case channel (formatGenerator p (initialData runner)) w of
                (Inl err, w1) \<Rightarrow> (Thrown err, runner\<lparr>ran := ran runner @ [p]\<rparr>, w1)
              | (Inr sent, w1) \<Rightarrow>
                  execute_loop channel createCollector (runner\<lparr>ran := ran runner @ [p]\<rparr>)
                    (storeMessage sent p) (initialData runner) w1)"
    by (simp add: execute_def sendMessage_def Let_def split: prod.splits sum.splits)
  show ?thesis
    by (intro conjI) (rule 1, rule 2, rule 3, rule execute_trace)
qed

text \<open>
  A step with no function over the children \<open>A\<close>, \<open>B\<close>, \<open>C\<close>: the trace is the step and
  \<open>B\<close>, and the log holds one send for each and no collector.
\<close>

theorem step_without_function_passes_through_witness:
  "execute logging_channel (scripted [MessageEvent (Message ''George'')]) runner0 display_only []
     = (Completed, \<lparr>initialData = ''data'', ran = [display_only, child_B]\<rparr>,
        [''P'', ''A'', ''B'', ''B''])"
proof -
  let ?cc = "scripted [MessageEvent (Message ''George'')]"
  let ?rn = "\<lparr>initialData = ''data'', ran = [display_only, child_B]\<rparr>"
  let ?B = "storeMessage (Message ''B'') child_B"
  let ?P = "storeMessage (Message ''P'') display_only"
  have a: "phase_function display_only = None" by (simp add: display_only_def step_def)
  have b: "phase_function ?P = None" by (simp add: a)
  have c: "phase_function ?B = None" by (simp add: child_B_def step_def)
  have gB: "getNext ?B ''data'' [''P'', ''A'', ''B'', ''B''] = (Inr None, [''P'', ''A'', ''B'', ''B''])"
    by (simp add: getNext_def child_B_def step_def)
  have gP: "getNext ?P ''data'' [''P''] = (Inr (Some child_B), [''P'', ''A'', ''B''])"
    by (simp add: getNext_def display_only_def step_def child_A_def child_B_def named_condition_def)
  have sB: "sendMessage logging_channel child_B ''data'' [''P'', ''A'', ''B'']
      = (Inr (Message ''B'', ?B), [''P'', ''A'', ''B'', ''B''])"
    by (simp add: sendMessage_def logging_channel_def child_B_def step_def)
  have sP: "logging_channel (formatGenerator display_only (initialData runner0)) []
      = (Inr (Message ''P''), [''P''])"
    by (simp add: logging_channel_def display_only_def step_def)
  have 1: "execute_loop logging_channel ?cc ?rn ?B ''data'' [''P'', ''A'', ''B'', ''B'']
        = (Completed, ?rn, [''P'', ''A'', ''B'', ''B''])"
    unfolding step_without_function_passes_through[OF c, where channel = logging_channel
          and createCollector = ?cc and runner = ?rn and data = "''data''"
          and w = "[''P'', ''A'', ''B'', ''B'']", THEN conjunct2, THEN conjunct1] gB
    by simp
  have 2: "execute_loop logging_channel ?cc \<lparr>initialData = ''data'', ran = [display_only]\<rparr>
          ?P ''data'' [''P'']
        = (Completed, ?rn, [''P'', ''A'', ''B'', ''B''])"
    unfolding step_without_function_passes_through[OF b, where channel = logging_channel
          and createCollector = ?cc and runner = "\<lparr>initialData = ''data'', ran = [display_only]\<rparr>"
          and data = "''data''" and w = "[''P'']", THEN conjunct2, THEN conjunct1] gP
    by (simp add: sB 1)
  have 3: "execute logging_channel ?cc runner0 display_only []
      = execute_loop logging_channel ?cc (runner0\<lparr>ran := ran runner0 @ [display_only]\<rparr>)
          ?P (initialData runner0) [''P'']"
    unfolding step_without_function_passes_through[OF a, where channel = logging_channel
          and createCollector = ?cc and runner = runner0 and w = "[]",
          THEN conjunct2, THEN conjunct2, THEN conjunct1] sP
    by simp
  show ?thesis
    unfolding 3 by (simp add: runner0_def 2)
qed

section \<open>Validation before the run\<close>

text \<open>
  Claim C9.  \<open>run\<close> on a tree that is not valid fails with the error of an invalid
  prompt and leaves the world and the runner as they were: nothing is sent and no node
  is visited.  On a valid tree it is \<open>execute\<close>.  The whole tree is validated: a node
  with several children, one of them without a condition, anywhere below the root makes
  \<open>run\<close> fail in this way.
\<close>

theorem run_validates_first:
  "(\<not> valid prompt \<longrightarrow>
      run channel createCollector runner prompt w = (Thrown invalid_prompt, runner, w))
   \<and> (valid prompt \<longrightarrow>
      run channel createCollector runner prompt w = execute channel createCollector runner prompt w)
   \<and> ((\<exists>n \<in> set (reachable prompt).
          1 < length (children n) \<and> (\<exists>c \<in> set (children n). condition c = None)) \<longrightarrow>
      run channel createCollector runner prompt w = (Thrown invalid_prompt, runner, w))"
proof (intro conjI impI)
  assume "\<not> valid prompt"
  then show "run channel createCollector runner prompt w = (Thrown invalid_prompt, runner, w)"
    by (simp add: run_def)
next
  assume "valid prompt"
  then show "run channel createCollector runner prompt w
      = execute channel createCollector runner prompt w"
    by (simp add: run_def)
next
  assume "\<exists>n \<in> set (reachable prompt).
          1 < length (children n) \<and> (\<exists>c \<in> set (children n). condition c = None)"
  then have "\<not> valid prompt" unfolding valid_reachable by blast
  then show "run channel createCollector runner prompt w = (Thrown invalid_prompt, runner, w)"
    by (simp add: run_def)
qed

text \<open>The tree of the tests that is not valid.\<close>

theorem run_validates_first_witness:
  "run logging_channel (scripted [MessageEvent (Message ''George'')]) runner0 tree_invalid []
     = (Thrown invalid_prompt, runner0, [])"
proof -
  have "\<exists>n \<in> set (reachable tree_invalid).
          1 < length (children n) \<and> (\<exists>c \<in> set (children n). condition c = None)"
    by (simp add: tree_invalid_def step_def)
  with run_validates_first[of tree_invalid logging_channel
      "scripted [MessageEvent (Message ''George'')]" runner0 "[]",
      THEN conjunct2, THEN conjunct2]
  show ?thesis by (rule mp)
qed

section \<open>The duration zero\<close>

text \<open>
  Claim C10.  A collection phase whose duration is zero arms no timer: whatever the
  events are, no timeout is pending, no call arms one, no inactivity is emitted and the
  phase is not \<open>INACTIVE\<close>.  Its promise stays pending unless a message was accepted,
  the exit reply was received, or an error rejected it.  A timeout event does nothing
  to it.
\<close>

theorem zero_duration_never_inactive:
  assumes "duration p = 0" and "phase_function p = Some func"
  shows "handleCollector (duration p) (collect_begin p w) = collect_begin p w
       \<and> timer (collect channel createCollector p data triggerMessage w) = None
       \<and> armings (timer_calls (collect channel createCollector p data triggerMessage w)) = []
       \<and> EmitInactivity \<notin> set (emitted (collect channel createCollector p data triggerMessage w))
       \<and> phase_status (collect channel createCollector p data triggerMessage w) \<noteq> INACTIVE
       \<and> (promise (collect channel createCollector p data triggerMessage w) = Pending
          \<or> phase_status (collect channel createCollector p data triggerMessage w) = ACCEPTED
          \<or> phase_status (collect channel createCollector p data triggerMessage w) = EXITED
          \<or> (\<exists>err. promise (collect channel createCollector p data triggerMessage w) = Rejected err))
       \<and> deliver channel func data (collect_begin p w) TimeoutEvent = collect_begin p w"
proof -
  let ?c = "collect channel createCollector p data triggerMessage w"
  have 1: "handleCollector (duration p) (collect_begin p w) = collect_begin p w" for w
    using assms(1) by (simp add: handleCollector_def)
  obtain evs w0 where cc: "createCollector triggerMessage w = (evs, w0)"
    by (cases "createCollector triggerMessage w")
  have c: "?c = collect_events channel func data (collect_begin p w0) evs"
    using assms(2) cc by (simp add: collect_def 1)
  have "untimed (collect_begin p w0)"
    by (simp add: untimed_def collect_begin_def phase_status_def stopped_emitted)
  then have u: "untimed ?c" unfolding c by (rule untimed_collect_events)
  have 2: "timer ?c = None" using u by (simp add: untimed_def)
  obtain k where "timer_calls ?c = timer_calls (collect_begin p w0) @ replicate k ClearTimeout"
    unfolding c using collect_events_timer_calls[of channel func data "collect_begin p w0" evs]
    by auto
  then have 3: "armings (timer_calls ?c) = []"
    by (simp add: collect_begin_def armings_def)
  have 4: "EmitInactivity \<notin> set (emitted ?c)" using u by (simp add: untimed_def)
  have 5: "phase_status ?c \<noteq> INACTIVE"
    using 4 status_INACTIVE[of "emitted ?c"] by (auto simp: phase_status_def)
  have 6: "promise ?c = Pending \<or> phase_status ?c = ACCEPTED \<or> phase_status ?c = EXITED
          \<or> (\<exists>err. promise ?c = Rejected err)"
    using u by (cases "promise ?c") (simp_all add: untimed_def)
  have 7: "deliver channel func data (collect_begin p w) TimeoutEvent = collect_begin p w"
    by (simp add: deliver_def collect_begin_def)
  show ?thesis
    by (intro conjI) (rule 1, rule 2, rule 3, rule 4, rule 5, rule 6, rule 7)
qed

text \<open>A rejected reply on a step with the duration zero: the phase is still waiting.\<close>

theorem zero_duration_never_inactive_witness:
  "promise (collect logging_channel (scripted [MessageEvent (Message ''no''), TimeoutEvent])
      phase_untimed ''data'' None []) = Pending
   \<and> timer (collect logging_channel (scripted [MessageEvent (Message ''no''), TimeoutEvent])
      phase_untimed ''data'' None []) = None"
proof -
  let ?c = "collect logging_channel (scripted [MessageEvent (Message ''no''), TimeoutEvent])
      phase_untimed ''data'' None []"
  have a: "duration phase_untimed = 0" by (simp add: phase_untimed_def step_def)
  have b: "phase_function phase_untimed = Some reply_function"
    by (simp add: phase_untimed_def step_def)
  note t = zero_duration_never_inactive[OF a b, where channel = logging_channel
      and createCollector = "scripted [MessageEvent (Message ''no''), TimeoutEvent]"
      and data = "''data''" and triggerMessage = None and w = "[]"]
  have e: "emitted ?c = [EmitReject (Message ''no'') (Rejection [])]"
    by (simp add: collect_def phase_untimed_def step_def scripted_def handleCollector_def
      collect_begin_def collect_events_Cons collect_events_Nil deliver_def stopped_emitted
      on_message_def handleMessage_def reply_function_def emit_fields)
  have "phase_status ?c = COLLECTING" by (simp add: phase_status_def e)
  moreover have "\<forall>err. promise ?c \<noteq> Rejected err"
    by (simp add: collect_def phase_untimed_def step_def scripted_def handleCollector_def
      collect_begin_def collect_events_Cons collect_events_Nil deliver_def stopped_emitted
      on_message_def handleMessage_def reply_function_def listener_defs logging_channel_def Let_def)
  ultimately show ?thesis using t by simp
qed

end
